theory Spec2Isabelle
  imports Complex_Main "HOL-Library.Word" "HOL-Library.Log_Nat"
begin


section \<open>Strings\<close>

text \<open>
  A JavaScript string is a sequence of UTF-16 code units. The embedding uses \<open>string\<close>
  (a \<open>char list\<close>), one \<open>char\<close> per code unit, so that it covers the strings whose
  code units are below 256; \<open>length\<close> is the \<open>.length\<close> of the source.
\<close>

definition code :: "char \<Rightarrow> nat" where
  "code c = of_char c"

text \<open>White space and line terminators of ECMAScript (what \<open>trim\<close> and \<open>\s\<close> remove)
  among the code units below 256: TAB, LF, VT, FF, CR, SP and NBSP.\<close>

definition is_space :: "char \<Rightarrow> bool" where
  "is_space c = (code c \<in> {9, 10, 11, 12, 13, 32, 160})"

definition is_digit :: "char \<Rightarrow> bool" where
  "is_digit c = (48 \<le> code c \<and> code c \<le> 57)"

definition trimStart :: "string \<Rightarrow> string" where
  "trimStart s = dropWhile is_space s"

definition trimEnd :: "string \<Rightarrow> string" where
  "trimEnd s = rev (dropWhile is_space (rev s))"

definition trim :: "string \<Rightarrow> string" where
  "trim s = trimEnd (trimStart s)"

text \<open>\<open>s.split(c)\<close> for a one-character separator: never empty, \<open>"".split(c) = [""]\<close>.\<close>

fun split_on :: "char \<Rightarrow> string \<Rightarrow> string list" where
  "split_on c [] = [[]]"
| "split_on c (x # xs) =
     (if x = c then [] # split_on c xs
      else (case split_on c xs of
              [] \<Rightarrow> [[x]]
            | l # ls \<Rightarrow> (x # l) # ls))"

text \<open>\<open>parts.join(sep)\<close>.\<close>

fun join :: "string \<Rightarrow> string list \<Rightarrow> string" where
  "join sep [] = []"
| "join sep [x] = x"
| "join sep (x # y # ys) = x @ sep @ join sep (y # ys)"

text \<open>\<open>Number(digits)\<close> on a run of decimal digits.\<close>

definition digits_value :: "string \<Rightarrow> nat" where
  "digits_value ds = foldl (\<lambda>n c. 10 * n + (code c - 48)) 0 ds"

text \<open>\<open>xs.sort(cmp)\<close>: the sort of the platform is stable; with a consistent comparator
  it is this insertion sort (an element goes before the first one it does not follow).\<close>

fun insert_by :: "('a \<Rightarrow> 'a \<Rightarrow> 'b::{zero,ord}) \<Rightarrow> 'a \<Rightarrow> 'a list \<Rightarrow> 'a list" where
  "insert_by cmp x [] = [x]"
| "insert_by cmp x (y # ys) =
     (if cmp x y \<le> 0 then x # y # ys else y # insert_by cmp x ys)"

definition js_sort :: "('a \<Rightarrow> 'a \<Rightarrow> 'b::{zero,ord}) \<Rightarrow> 'a list \<Rightarrow> 'a list" where
  "js_sort cmp xs = foldr (insert_by cmp) xs []"


text \<open>\<open>xs.slice(0, end)\<close> for an integral \<open>end\<close>: a negative \<open>end\<close> counts from the
  end of the array.\<close>

definition slice0 :: "int \<Rightarrow> 'a list \<Rightarrow> 'a list" where
  "slice0 e xs = (if e < 0 then take (nat (int (length xs) + e)) xs else take (nat e) xs)"

section \<open>Version planning (ingest/github/versioning.ts)\<close>

record SemverTag =
  raw :: string
  major :: nat
  minor :: nat
  patch :: nat

text \<open>\<open>/^v?(\d+)\.x$/i\<close> on the trimmed label.\<close>

definition parseSeriesLabel :: "string \<Rightarrow> nat option" where
  "parseSeriesLabel label =
     (let t = trim label;
          u = (case t of c # r \<Rightarrow> (if c = CHR ''v'' \<or> c = CHR ''V'' then r else t) | [] \<Rightarrow> t);
          ds = takeWhile is_digit u;
          r = dropWhile is_digit u
      in if ds \<noteq> [] \<and> (r = ''.x'' \<or> r = ''.X'') then Some (digits_value ds) else None)"

text \<open>One attempt of \<open>/(\d+)\.(\d+)\.(\d+)/\<close> at the head of the string. Each \<open>\d+\<close> is
  greedy and the character after a group must be a dot, so giving digits back never helps.\<close>

definition semver_here :: "string \<Rightarrow> (nat \<times> nat \<times> nat) option" where
  "semver_here s =
     (let d1 = takeWhile is_digit s; r1 = dropWhile is_digit s in
      if d1 = [] then None else
      (case r1 of
         c1 # s2 \<Rightarrow>
           if c1 \<noteq> CHR ''.'' then None else
           (let d2 = takeWhile is_digit s2; r2 = dropWhile is_digit s2 in
            if d2 = [] then None else
            (case r2 of
               c2 # s3 \<Rightarrow>
                 if c2 \<noteq> CHR ''.'' then None else
                 (let d3 = takeWhile is_digit s3 in
                  if d3 = [] then None
                  else Some (digits_value d1, digits_value d2, digits_value d3))
             | [] \<Rightarrow> None))
       | [] \<Rightarrow> None))"

text \<open>The leftmost match: the attempt is made at every start position in turn.\<close>

fun semver_search :: "string \<Rightarrow> (nat \<times> nat \<times> nat) option" where
  "semver_search [] = None"
| "semver_search (c # cs) =
     (case semver_here (c # cs) of
        Some m \<Rightarrow> Some m
      | None \<Rightarrow> semver_search cs)"

definition parseSemverTag :: "string \<Rightarrow> SemverTag option" where
  "parseSemverTag tag =
     (let cleaned = trim tag in
      case semver_search cleaned of
        None \<Rightarrow> None
      | Some (a, b, c) \<Rightarrow> Some \<lparr>raw = cleaned, major = a, minor = b, patch = c\<rparr>)"

definition compareSemverDesc :: "SemverTag \<Rightarrow> SemverTag \<Rightarrow> int" where
  "compareSemverDesc a b =
     (if major a \<noteq> major b then int (major b) - int (major a)
      else if minor a \<noteq> minor b then int (minor b) - int (minor a)
      else int (patch b) - int (patch a))"

definition pickLatestForSeries :: "string list \<Rightarrow> string \<Rightarrow> string option" where
  "pickLatestForSeries tags seriesLabel =
     (case parseSeriesLabel seriesLabel of
        None \<Rightarrow> None
      | Some m \<Rightarrow>
          (let stable = filter (\<lambda>t. major t = m) (List.map_filter parseSemverTag tags) in
           case js_sort compareSemverDesc stable of
             [] \<Rightarrow> None
           | t # _ \<Rightarrow> Some (raw t)))"

text \<open>\<open>/^\d+\.x$/i\<close>.\<close>

definition is_series_form :: "string \<Rightarrow> bool" where
  "is_series_form t =
     (let ds = takeWhile is_digit t; r = dropWhile is_digit t
      in ds \<noteq> [] \<and> (r = ''.x'' \<or> r = ''.X''))"

text \<open>The leftmost match of \<open>/(\d+)\.\d+/\<close>; the result is the first group.\<close>

definition major_here :: "string \<Rightarrow> string option" where
  "major_here s =
     (let d1 = takeWhile is_digit s; r1 = dropWhile is_digit s in
      if d1 = [] then None else
      (case r1 of
         c1 # c2 # _ \<Rightarrow> if c1 = CHR ''.'' \<and> is_digit c2 then Some d1 else None
       | _ \<Rightarrow> None))"

fun major_search :: "string \<Rightarrow> string option" where
  "major_search [] = None"
| "major_search (c # cs) =
     (case major_here (c # cs) of
        Some m \<Rightarrow> Some m
      | None \<Rightarrow> major_search cs)"

definition extractMajorVersion :: "string \<Rightarrow> string" where
  "extractMajorVersion tag =
     (let trimmed = trim tag in
      if is_series_form trimmed then trimmed
      else (case major_search trimmed of
              Some m \<Rightarrow> m @ ''.x''
            | None \<Rightarrow> trimmed))"



section \<open>Archive download (ingest/github/download.ts)\<close>

text \<open>The value of \<open>Number(text)\<close>: a number, or NaN for a text that is not numeric.\<close>

datatype jsnum = Num real | NaN

datatype error =
    TokenInvalid
  | AccessDenied bool
  | NotFound
  | Retryable nat
  | GithubError nat string
  | HeaderTooLarge real nat
  | StreamTooLarge nat nat
  | NetworkError string
  | DownloadFailed error
  | ExtractFailed string

type_synonym bytes = "8 word list"

text \<open>What \<open>fetch\<close> resolves to: status line, the headers read by the code, and the
  sequence of values the body reader yields before \<open>done\<close> (\<open>None\<close> for a read without
  a value).\<close>

record response =
  status :: nat
  ok :: bool
  hasBody :: bool
  statusText :: string
  resUrl :: string
  header :: "string \<Rightarrow> string option"
  reads :: "bytes option list"

record okDownload =
  zipData :: bytes
  url :: string
  sha :: "string option"
  etag :: "string option"
  lastModified :: "string option"

datatype DownloadOutcome = DownloadOk okDownload | DownloadNotModified "string option"

record fetchOpts =
  token :: "string option"
  optEtag :: "string option"
  maxBytes :: nat

definition DEFAULT_MAX_BYTES :: nat where
  "DEFAULT_MAX_BYTES = 500 * 1024 * 1024"

text \<open>Truthiness of an optional string: present and not empty.\<close>

definition truthy :: "string option \<Rightarrow> bool" where
  "truthy v = (case v of None \<Rightarrow> False | Some s \<Rightarrow> s \<noteq> [])"

text \<open>The reader loop: \<open>loaded\<close> grows by each chunk and the loop throws at the first
  chunk that takes it over the limit.\<close>

fun readAll :: "nat \<Rightarrow> bytes option list \<Rightarrow> bytes list \<Rightarrow> nat \<Rightarrow> error + (bytes list \<times> nat)" where
  "readAll cap [] chunks loaded = Inr (chunks, loaded)"
| "readAll cap (None # rs) chunks loaded = readAll cap rs chunks loaded"
| "readAll cap (Some v # rs) chunks loaded =
     (let loaded' = loaded + length v in
      if loaded' > cap then Inl (StreamTooLarge cap loaded')
      else readAll cap rs (chunks @ [v]) loaded')"

definition concatChunks :: "bytes list \<Rightarrow> nat \<Rightarrow> bytes" where
  "concatChunks chunks n =
     (case chunks of
        [first] \<Rightarrow> first
      | _ \<Rightarrow> take n (concat chunks @ replicate (n - length (concat chunks)) 0))"

definition strip_weak :: "string \<Rightarrow> string" where
  "strip_weak s = (if take 2 s = ''W/'' then drop 2 s else s)"

definition normalizeEtag :: "string option \<Rightarrow> string option" where
  "normalizeEtag r =
     (case r of
        None \<Rightarrow> None
      | Some s \<Rightarrow> if s = [] then None
                  else (let trimmed = trim s in
                        if trimmed = [] then None else Some (strip_weak trimmed)))"

definition fetchWithGuards ::
  "(string \<Rightarrow> jsnum) \<Rightarrow> fetchOpts \<Rightarrow> response \<Rightarrow> error + DownloadOutcome" where
  "fetchWithGuards toNumber opts res =
     (if status res = 304 then Inr (DownloadNotModified (optEtag opts))
      else if status res = 401 then Inl TokenInvalid
      else if status res = 403 then Inl (AccessDenied (truthy (token opts)))
      else if status res = 404 then Inl NotFound
      else if status res = 429 \<or> (500 \<le> status res \<and> status res \<le> 599)
        then Inl (Retryable (status res))
      else if \<not> ok res \<or> \<not> hasBody res then Inl (GithubError (status res) (statusText res))
      else
        (case (case header res ''content-length'' of
                 None \<Rightarrow> None
               | Some cl \<Rightarrow>
                   if cl = [] then None
                   else (case toNumber cl of
                           Num n \<Rightarrow> if n > real (maxBytes opts)
                                    then Some (HeaderTooLarge n (maxBytes opts)) else None
                         | NaN \<Rightarrow> None)) of
           Some e \<Rightarrow> Inl e
         | None \<Rightarrow>
             (case readAll (maxBytes opts) (reads res) [] 0 of
                Inl e \<Rightarrow> Inl e
              | Inr (chunks, loaded) \<Rightarrow>
                  Inr (DownloadOk
                    \<lparr>zipData = concatChunks chunks loaded,
                     url = resUrl res,
                     sha = (if truthy (header res ''x-github-sha'')
                            then header res ''x-github-sha'' else None),
                     etag = normalizeEtag (header res ''etag''),
                     lastModified = header res ''last-modified''\<rparr>))))"

text \<open>The loop of \<open>downloadArchive\<close> over the candidate URLs: the first answer that is
  not an error is returned; an error is remembered and the next URL is tried; when no URL
  is left the last error is wrapped and thrown. The network is a function from the URL to
  what \<open>fetch\<close> gives: a response, or an error when \<open>fetch\<close> itself throws.\<close>

fun tryUrls ::
  "(string \<Rightarrow> error + response) \<Rightarrow> (string \<Rightarrow> jsnum) \<Rightarrow> fetchOpts \<Rightarrow> string list
    \<Rightarrow> error \<Rightarrow> error + DownloadOutcome" where
  "tryUrls net toNumber opts [] lastError = Inl (DownloadFailed lastError)"
| "tryUrls net toNumber opts (u # us) lastError =
     (case (case net u of Inl e \<Rightarrow> Inl e | Inr res \<Rightarrow> fetchWithGuards toNumber opts res) of
        Inr out \<Rightarrow> Inr out
      | Inl e \<Rightarrow> tryUrls net toNumber opts us e)"

record downloadOpts =
  dToken :: "string option"
  dEtag :: "string option"
  dMaxBytes :: "nat option"

record RepoRef =
  owner :: string
  repo :: string
  ref :: "string option"

definition is_hex :: "char \<Rightarrow> bool" where
  "is_hex c = (is_digit c \<or> (97 \<le> code c \<and> code c \<le> 102) \<or> (65 \<le> code c \<and> code c \<le> 70))"

text \<open>\<open>/^[0-9a-f]{lo,hi}$/i\<close>.\<close>

definition hex_run :: "nat \<Rightarrow> nat \<Rightarrow> string \<Rightarrow> bool" where
  "hex_run lo hi s = (lo \<le> length s \<and> length s \<le> hi \<and> list_all is_hex s)"

text \<open>The candidate URLs; \<open>encodeURIComponent\<close> and \<open>encodeURI\<close> of the platform
  are parameters.\<close>

definition buildZipballUrls ::
  "(string \<Rightarrow> string) \<Rightarrow> (string \<Rightarrow> string) \<Rightarrow> RepoRef \<Rightarrow> string list" where
  "buildZipballUrls encC encU r =
     (let apiBase = ''https://api.github.com/repos/'' @ encC (owner r) @ ''/'' @ encC (repo r);
          webBase = ''https://github.com/'' @ encC (owner r) @ ''/'' @ encC (repo r) @ ''/archive'';
          target = (if truthy (ref r) then encC (the (ref r)) else ''HEAD'');
          urls = [apiBase @ ''/zipball/'' @ target]
      in if \<not> truthy (ref r) then urls @ [webBase @ ''/HEAD.zip'']
         else
           (let rf = the (ref r);
                urls2 = (if hex_run 4 40 rf then urls @ [webBase @ ''/'' @ encC rf @ ''.zip'']
                         else urls);
                refPath = encU rf
            in urls2 @ [webBase @ ''/refs/heads/'' @ refPath @ ''.zip'',
                        webBase @ ''/refs/tags/'' @ refPath @ ''.zip'']))"

definition effectiveMaxBytes :: "downloadOpts \<Rightarrow> nat" where
  "effectiveMaxBytes opts = (case dMaxBytes opts of None \<Rightarrow> DEFAULT_MAX_BYTES | Some m \<Rightarrow> m)"

definition downloadArchive ::
  "(string \<Rightarrow> error + response) \<Rightarrow> (string \<Rightarrow> jsnum) \<Rightarrow> (string \<Rightarrow> string) \<Rightarrow> (string \<Rightarrow> string)
    \<Rightarrow> RepoRef \<Rightarrow> downloadOpts \<Rightarrow> error + DownloadOutcome" where
  "downloadArchive net toNumber encC encU r opts =
     (let mb = effectiveMaxBytes opts in
      tryUrls net toNumber \<lparr>token = dToken opts, optEtag = dEtag opts, maxBytes = mb\<rparr>
        (buildZipballUrls encC encU r) (NetworkError []))"

text \<open>The total size of the body the reader delivers.\<close>

definition bodySize :: "bytes option list \<Rightarrow> nat" where
  "bodySize rs = sum_list (map (\<lambda>r. case r of None \<Rightarrow> 0 | Some v \<Rightarrow> length v) rs)"

text \<open>A response that reaches the size guards: none of the status guards throws.\<close>

definition passesStatusGuards :: "response \<Rightarrow> bool" where
  "passesStatusGuards res =
     (status res \<notin> {304, 401, 403, 404, 429} \<and> \<not> (500 \<le> status res \<and> status res \<le> 599)
      \<and> ok res \<and> hasBody res)"

text \<open>The size the \<open>content-length\<close> header announces, when it is present, not empty
  and numeric.\<close>

definition announcedSize :: "(string \<Rightarrow> jsnum) \<Rightarrow> response \<Rightarrow> real option" where
  "announcedSize toNumber res =
     (case header res ''content-length'' of
        None \<Rightarrow> None
      | Some cl \<Rightarrow> if cl = [] then None
                   else (case toNumber cl of Num n \<Rightarrow> Some n | NaN \<Rightarrow> None))"


text \<open>A \<open>Number\<close> for the texts made of decimal digits only (every other text is NaN
  here): the conversion of the platform agrees with it on those texts.\<close>

definition decimalNumber :: "string \<Rightarrow> jsnum" where
  "decimalNumber s = (if s \<noteq> [] \<and> list_all is_digit s then Num (real (digits_value s)) else NaN)"

text \<open>A response of status 200 that announces three bytes and delivers them in two
  chunks, and the options that set the limit to three and to two bytes.\<close>

definition res3 :: response where
  "res3 = \<lparr>status = 200, ok = True, hasBody = True, statusText = ''OK'', resUrl = ''u'',
            header = (\<lambda>h. if h = ''content-length'' then Some ''3'' else None),
            reads = [Some [1, 2], None, Some [3]]\<rparr>"

definition ref0 :: RepoRef where
  "ref0 = \<lparr>owner = ''o'', repo = ''r'', ref = None\<rparr>"

definition optsCap :: "nat \<Rightarrow> downloadOpts" where
  "optsCap n = \<lparr>dToken = None, dEtag = None, dMaxBytes = Some n\<rparr>"

section \<open>Repository sync (ingest/github/sync.ts)\<close>

record LoadedFile =
  relPath :: string
  fileContent :: string
  lang :: "string option"
  fileHash :: string
  byteSize :: nat

record SkippedFile =
  skRelPath :: string
  skSize :: nat
  skMaxBytes :: nat

text \<open>\<open>tail.replace(/\.zip$/i, "")\<close>.\<close>

definition strip_zip :: "string \<Rightarrow> string" where
  "strip_zip s =
     (let n = length s; e = drop (n - 4) s in
      if 4 \<le> n \<and> e ! 0 = CHR ''.'' \<and> e ! 1 \<in> {CHR ''z'', CHR ''Z''}
         \<and> e ! 2 \<in> {CHR ''i'', CHR ''I''} \<and> e ! 3 \<in> {CHR ''p'', CHR ''P''}
      then take (n - 4) s else s)"

definition parseShaFromTopLevel :: "string option \<Rightarrow> string option" where
  "parseShaFromTopLevel topLevel =
     (case topLevel of
        None \<Rightarrow> None
      | Some t \<Rightarrow>
          if t = [] then None
          else (let parts = split_on CHR ''-'' t; maybe = last parts in
                if maybe \<noteq> [] \<and> hex_run 7 40 maybe then Some maybe else None))"

definition parseShaFromUrl :: "string \<Rightarrow> string option" where
  "parseShaFromUrl u =
     (let tail = last (split_on CHR ''/'' u); trimmed = strip_zip tail in
      if trimmed \<noteq> [] \<and> hex_run 7 40 trimmed then Some trimmed else None)"

definition resolveCommitSha ::
  "string option \<Rightarrow> string \<Rightarrow> string option \<Rightarrow> string option \<Rightarrow> string option" where
  "resolveCommitSha headerSha u topLevelDir previous =
     (if truthy headerSha \<and> hex_run 7 40 (the headerSha) then headerSha
      else (case parseShaFromTopLevel topLevelDir of
              Some fromDir \<Rightarrow> Some fromDir
            | None \<Rightarrow>
                (case parseShaFromUrl u of
                   Some fromUrl \<Rightarrow> Some fromUrl
                 | None \<Rightarrow> previous)))"

record notModifiedResult =
  nmCommitSha :: "string option"
  nmEtag :: "string option"
  nmProcessedFiles :: "nat option"

record okResult =
  okCommitSha :: string
  okEtag :: "string option"
  okLastModified :: "string option"
  okTree :: string
  okFiles :: "LoadedFile list"
  okSkipped :: "SkippedFile list"
  okProcessedFiles :: nat

datatype GithubSyncResult = SyncNotModified notModifiedResult | SyncOk okResult

text \<open>What the steps outside the function give during one call: the outcome of
  \<open>downloadArchive\<close>, the top-level directory \<open>extractToTemp\<close> found (or its error), and
  the files \<open>filterAndLoadFiles\<close> loaded and skipped.\<close>

record syncWorld =
  wDownload :: "error + DownloadOutcome"
  wExtract :: "error + string option"
  wLoaded :: "LoadedFile list"
  wSkipped :: "SkippedFile list"

text \<open>\<open>syncGithubRepo\<close>; \<open>buildRepoTree\<close> is a parameter, \<open>hasOnFile\<close> says whether the
  caller passed the \<open>onFile\<close> callback (then the files are streamed, not collected).\<close>

definition syncGithubRepo ::
  "(string list \<Rightarrow> string) \<Rightarrow> syncWorld \<Rightarrow> string option \<Rightarrow> bool \<Rightarrow> bool
    \<Rightarrow> error + GithubSyncResult" where
  "syncGithubRepo buildRepoTree w previousSha force hasOnFile =
     (case wDownload w of
        Inl e \<Rightarrow> Inl e
      | Inr (DownloadNotModified et) \<Rightarrow>
          Inr (SyncNotModified
                 \<lparr>nmCommitSha = previousSha, nmEtag = et, nmProcessedFiles = Some 0\<rparr>)
      | Inr (DownloadOk d) \<Rightarrow>
          (case wExtract w of
             Inl e \<Rightarrow> Inl e
           | Inr topLevelDir \<Rightarrow>
               (let commitSha = resolveCommitSha (sha d) (url d) topLevelDir previousSha in
                if truthy commitSha \<and> truthy previousSha \<and> commitSha = previousSha \<and> \<not> force
                then Inr (SyncNotModified
                            \<lparr>nmCommitSha = commitSha, nmEtag = etag d, nmProcessedFiles = None\<rparr>)
                else
                  (let streamedPaths = map relPath (wLoaded w);
                       collected = (if hasOnFile then [] else wLoaded w);
                       tree = buildRepoTree (streamedPaths @ map skRelPath (wSkipped w))
                   in Inr (SyncOk
                        \<lparr>okCommitSha = (case commitSha of None \<Rightarrow> ''unknown'' | Some s \<Rightarrow> s),
                         okEtag = etag d,
                         okLastModified = lastModified d,
                         okTree = tree,
                         okFiles = collected,
                         okSkipped = wSkipped w,
                         okProcessedFiles = length streamedPaths\<rparr>)))))"

text \<open>The text after the last occurrence of a separator (the whole text when there is
  none).\<close>

definition after_last :: "char \<Rightarrow> string \<Rightarrow> string" where
  "after_last c s = rev (takeWhile (\<lambda>x. x \<noteq> c) (rev s))"

text \<open>A download and an extraction for the examples: header SHA absent, archive directory
  \<open>o-r-0123abc\<close>.\<close>

definition dl0 :: okDownload where
  "dl0 = \<lparr>zipData = [], url = ''https://codeload.github.com/o/r/legacy.zip/refs/heads/main'',
           sha = None, etag = Some ''e1'', lastModified = None\<rparr>"


section \<open>Chunk drafts (chunk/types.ts)\<close>

datatype chunkType = Code | Doc | DocInline

record ChunkDraft =
  content :: string
  tokenCount :: nat
  chunkType :: chunkType
  contextPath :: "string option"
  title :: "string option"
  preview :: "string option"
  lineStart :: "int option"
  lineEnd :: "int option"
  charStart :: "int option"
  charEnd :: "int option"
  language :: "string option"
  symbolName :: "string option"
  symbolType :: "string option"
  symbolId :: "string option"
  symbolPartIndex :: "nat option"
  symbolPartCount :: "nat option"

section \<open>The document store (store/documents.ts, store/chunks.ts)\<close>

text \<open>
  The tables of the library database that the functions below read and write, each a list
  of rows in table order. \<open>document_seq\<close>, \<open>blob_seq\<close> and \<open>chunk_seq\<close> are the
  AUTOINCREMENT counters of the engine: a new row gets an id one above the largest id the
  table ever held. \<open>vectors_vec\<close> is \<open>None\<close> while the vector table does not exist.
\<close>

record document =
  rowid :: nat
  source_id :: nat
  path :: string
  uri :: string
  doc_title :: string
  hash :: string
  content_type :: string
  version_label :: string
  created_at :: string
  updated_at :: string
  active :: nat

record document_blob =
  blob_id :: nat
  blob_hash :: string
  blob_content :: string
  blob_created_at :: string

record chunk =
  chunk_id :: nat
  document_id :: nat
  position :: nat
  c_chunk_type :: chunkType
  c_context_path :: "string option"
  c_title :: string
  c_preview :: "string option"
  c_language :: "string option"
  c_symbol_name :: "string option"
  c_symbol_type :: "string option"
  c_symbol_id :: "string option"
  c_symbol_part_index :: "nat option"
  c_symbol_part_count :: "nat option"
  c_line_start :: "int option"
  c_line_end :: "int option"
  c_char_start :: "int option"
  c_char_end :: "int option"
  c_token_count :: nat
  c_chunk_sha :: string
  c_content :: string
  c_doc_path :: string
  c_doc_uri :: string
  c_doc_title :: string
  c_created_at :: string
  c_updated_at :: string

record db =
  documents :: "document list"
  document_blobs :: "document_blob list"
  chunks :: "chunk list"
  vectors_vec :: "nat list option"
  document_seq :: nat
  blob_seq :: nat
  chunk_seq :: nat

definition next_id :: "nat \<Rightarrow> nat list \<Rightarrow> nat" where
  "next_id seq ids = Suc (fold max ids seq)"

record docInput =
  in_sourceId :: nat
  in_path :: string
  in_uri :: string
  in_title :: string
  in_hash :: string
  in_contentType :: string
  in_versionLabel :: string
  in_content :: string

text \<open>\<open>INSERT OR IGNORE INTO document_blobs\<close>: \<open>hash\<close> is unique, a second row with the
  same hash is ignored. The engine takes the new id before it checks the constraint, so
  the counter of the table advances also when the row is ignored.\<close>

definition insertBlobOrIgnore :: "string \<Rightarrow> db \<Rightarrow> string \<Rightarrow> string \<Rightarrow> db" where
  "insertBlobOrIgnore now d h c =
     (let i = next_id (blob_seq d) (map blob_id (document_blobs d)) in
      if \<exists>b \<in> set (document_blobs d). blob_hash b = h then d\<lparr>blob_seq := i\<rparr>
      else d\<lparr>document_blobs := document_blobs d @
                 [\<lparr>blob_id = i, blob_hash = h, blob_content = c, blob_created_at = now\<rparr>],
             blob_seq := i\<rparr>)"

text \<open>\<open>upsertDocument\<close>; \<open>now\<close> is the time stamp of the call. The result is the
  database after the call and the returned \<open>id\<close> and \<open>changed\<close>.\<close>

definition upsertDocument :: "string \<Rightarrow> db \<Rightarrow> docInput \<Rightarrow> db \<times> (nat \<times> bool)" where
  "upsertDocument now d0 inp =
     (let d = insertBlobOrIgnore now d0 (in_hash inp) (in_content inp);
          existing = find (\<lambda>r. source_id r = in_sourceId inp \<and> path r = in_path inp
                                \<and> version_label r = in_versionLabel inp) (documents d)
      in case existing of
           None \<Rightarrow>
             (let i = next_id (document_seq d) (map rowid (documents d)) in
              (d\<lparr>documents := documents d @
                    [\<lparr>rowid = i, source_id = in_sourceId inp, path = in_path inp,
                      uri = in_uri inp, doc_title = in_title inp, hash = in_hash inp,
                      content_type = in_contentType inp, version_label = in_versionLabel inp,
                      created_at = now, updated_at = now, active = 1\<rparr>],
                  document_seq := i\<rparr>,
               (i, True)))
         | Some e \<Rightarrow>
             if hash e = in_hash inp then
               (d\<lparr>documents := map (\<lambda>r. if rowid r = rowid e
                     then r\<lparr>doc_title := in_title inp, uri := in_uri inp, updated_at := now,
                            active := 1\<rparr>
                     else r) (documents d)\<rparr>,
                (rowid e, False))
             else
               (d\<lparr>documents := map (\<lambda>r. if rowid r = rowid e
                     then r\<lparr>doc_title := in_title inp, uri := in_uri inp, hash := in_hash inp,
                            content_type := in_contentType inp, updated_at := now, active := 1\<rparr>
                     else r) (documents d)\<rparr>,
                (rowid e, True)))"

text \<open>A statement with more bound parameters than the engine allows
  (\<open>SQLITE_MAX_VARIABLE_NUMBER\<close>, here \<open>maxVariables\<close>) is refused when it is prepared, and
  the call throws.\<close>

datatype storeError = TooManySqlVariables

text \<open>\<open>deactivateMissingDocuments\<close>: the database after the call and the number of rows
  the statement matched. With kept paths the statement binds the source, the version label
  and one parameter for every kept path.\<close>

definition deactivateMissingDocuments ::
  "nat \<Rightarrow> db \<Rightarrow> nat \<Rightarrow> string \<Rightarrow> string list \<Rightarrow> storeError + (db \<times> nat)" where
  "deactivateMissingDocuments maxVariables d sourceId versionLabel keepPaths =
     (if length keepPaths = 0 then
        (let hit = (\<lambda>r. source_id r = sourceId \<and> version_label r = versionLabel) in
         Inr (d\<lparr>documents := map (\<lambda>r. if hit r then r\<lparr>active := 0\<rparr> else r) (documents d)\<rparr>,
              length (filter hit (documents d))))
      else if maxVariables < 2 + length keepPaths then Inl TooManySqlVariables
      else
        (let hit = (\<lambda>r. source_id r = sourceId \<and> version_label r = versionLabel
                         \<and> path r \<notin> set keepPaths) in
         Inr (d\<lparr>documents := map (\<lambda>r. if hit r then r\<lparr>active := 0\<rparr> else r) (documents d)\<rparr>,
              length (filter hit (documents d)))))"

text \<open>\<open>deleteChunksForDocument\<close>: with a vector table, the ids of the chunks of the
  document are bound one by one in the statement that deletes their vectors.\<close>

definition deleteChunksForDocument :: "nat \<Rightarrow> db \<Rightarrow> nat \<Rightarrow> storeError + db" where
  "deleteChunksForDocument maxVariables d documentId =
     (let chunkIds = map chunk_id (filter (\<lambda>c. document_id c = documentId) (chunks d));
          deleteChunks = (\<lambda>d1. d1\<lparr>chunks := filter (\<lambda>c. document_id c \<noteq> documentId) (chunks d1)\<rparr>)
      in case vectors_vec d of
           Some vs \<Rightarrow>
             if length chunkIds > 0 then
               (if maxVariables < length chunkIds then Inl TooManySqlVariables
                else Inr (deleteChunks (d\<lparr>vectors_vec := Some (filter (\<lambda>v. v \<notin> set chunkIds) vs)\<rparr>)))
             else Inr (deleteChunks d)
         | None \<Rightarrow> Inr (deleteChunks d))"

text \<open>The decimal text of a number, as a template string prints it.\<close>

function decimal :: "nat \<Rightarrow> string" where
  "decimal n = (if n < 10 then [char_of (48 + n)] else decimal (n div 10) @ [char_of (48 + n mod 10)])"
  by pat_completeness auto
termination
  by (relation "measure id") auto

text \<open>\<open>insertChunks\<close>, one row per draft in order; \<open>sha256Hex\<close> is a parameter.\<close>

fun insertChunkRows ::
  "(string \<Rightarrow> string) \<Rightarrow> string \<Rightarrow> nat \<Rightarrow> string \<Rightarrow> string \<Rightarrow> string
    \<Rightarrow> nat \<Rightarrow> ChunkDraft list \<Rightarrow> db \<Rightarrow> nat list \<Rightarrow> db \<times> nat list" where
  "insertChunkRows sha256Hex now documentId docPath docUri docTitle index [] d ids = (d, ids)"
| "insertChunkRows sha256Hex now documentId docPath docUri docTitle index (draft # drafts) d ids =
     (let chunkSha = sha256Hex (decimal documentId @ '':'' @ decimal index @ '':'' @ content draft);
          i = next_id (chunk_seq d) (map chunk_id (chunks d));
          row = \<lparr>chunk_id = i, document_id = documentId, position = index,
                 c_chunk_type = chunkType draft, c_context_path = contextPath draft,
                 c_title = (case title draft of None \<Rightarrow> docTitle | Some t \<Rightarrow> t),
                 c_preview = preview draft, c_language = language draft,
                 c_symbol_name = symbolName draft, c_symbol_type = symbolType draft,
                 c_symbol_id = symbolId draft, c_symbol_part_index = symbolPartIndex draft,
                 c_symbol_part_count = symbolPartCount draft,
                 c_line_start = lineStart draft, c_line_end = lineEnd draft,
                 c_char_start = charStart draft, c_char_end = charEnd draft,
                 c_token_count = tokenCount draft, c_chunk_sha = chunkSha,
                 c_content = content draft, c_doc_path = docPath, c_doc_uri = docUri,
                 c_doc_title = docTitle, c_created_at = now, c_updated_at = now\<rparr>
      in insertChunkRows sha256Hex now documentId docPath docUri docTitle (Suc index) drafts
           (d\<lparr>chunks := chunks d @ [row], chunk_seq := i\<rparr>) (ids @ [i]))"

definition insertChunks ::
  "(string \<Rightarrow> string) \<Rightarrow> string \<Rightarrow> db \<Rightarrow> nat \<Rightarrow> string \<Rightarrow> string \<Rightarrow> string
    \<Rightarrow> ChunkDraft list \<Rightarrow> db \<times> nat list" where
  "insertChunks sha256Hex now d documentId docPath docUri docTitle drafts =
     insertChunkRows sha256Hex now documentId docPath docUri docTitle 0 drafts d []"

text \<open>The constraints of the schema on \<open>documents\<close>: \<open>id\<close> is the primary key and
  \<open>(source_id, path, version_label)\<close> is unique.\<close>

definition doc_key :: "document \<Rightarrow> nat \<times> string \<times> string" where
  "doc_key r = (source_id r, path r, version_label r)"

definition documents_ok :: "document list \<Rightarrow> bool" where
  "documents_ok rs = (distinct (map rowid rs) \<and> distinct (map doc_key rs))"

section \<open>Numbers of the platform (IEEE 754 binary64)\<close>

text \<open>
  A number of the platform is not-a-number, an infinity, the negative zero, or a finite
  value; \<open>Fin 0\<close> is the positive zero. The finite values of the format are the multiples
  \<open>m * 2 ^ e\<close> with \<open>\<bar>m\<bar> < 2 ^ 53\<close> and \<open>- 1074 \<le> e \<le> 971\<close>. An operation gives the exact
  result rounded to the nearest value of the format, ties to the even mantissa (\<open>rnd\<close>).
\<close>

datatype double = NotANumber | PInf | NInf | NZero | Fin real

text \<open>\<open>ilog2 q\<close> is the exponent \<open>k\<close> with \<open>2 ^ k \<le> q < 2 ^ (k + 1)\<close>, for \<open>0 < q\<close>.\<close>

definition ilog2 :: "real \<Rightarrow> int" where
  "ilog2 q = (if 1 \<le> q then bitlen \<lfloor>q\<rfloor> - 1 else - bitlen (\<lceil>1 / q\<rceil> - 1))"

text \<open>The nearest integer, a tie goes to the even one.\<close>

definition round_even :: "real \<Rightarrow> int" where
  "round_even x =
     (let f = \<lfloor>x\<rfloor>; r = x - of_int f in
      if r < 1 / 2 then f else if 1 / 2 < r then f + 1 else if even f then f else f + 1)"

text \<open>Rounding of an exact result: the last place has the exponent \<open>e\<close>, 52 below the
  exponent of the value and not below \<open>- 1074\<close> (subnormal values); a rounded magnitude of
  \<open>2 ^ 1024\<close> or more is an infinity, and a negative value that rounds to zero is the
  negative zero.\<close>

definition rnd :: "real \<Rightarrow> double" where
  "rnd q =
     (if q = 0 then Fin 0
      else
        (let a = \<bar>q\<bar>;
             e = max (ilog2 a - 52) (- 1074);
             v = of_int (round_even (a / 2 powi e)) * 2 powi e
         in if 2 powi 1024 \<le> v then (if 0 < q then PInf else NInf)
            else if v = 0 then (if 0 < q then Fin 0 else NZero)
            else Fin (if 0 < q then v else - v)))"

definition fin_val :: "double \<Rightarrow> real" where
  "fin_val d = (case d of Fin q \<Rightarrow> q | _ \<Rightarrow> 0)"

definition is_neg :: "double \<Rightarrow> bool" where
  "is_neg d = (case d of NInf \<Rightarrow> True | NZero \<Rightarrow> True | Fin q \<Rightarrow> q < 0 | _ \<Rightarrow> False)"

definition is_inf :: "double \<Rightarrow> bool" where
  "is_inf d = (d = PInf \<or> d = NInf)"

definition is_zero :: "double \<Rightarrow> bool" where
  "is_zero d = (d = NZero \<or> d = Fin 0)"

text \<open>Negation, addition, subtraction and division of numbers.\<close>

definition fneg :: "double \<Rightarrow> double" where
  "fneg d = (case d of NotANumber \<Rightarrow> NotANumber | PInf \<Rightarrow> NInf | NInf \<Rightarrow> PInf | NZero \<Rightarrow> Fin 0
             | Fin q \<Rightarrow> if q = 0 then NZero else Fin (- q))"

definition fadd :: "double \<Rightarrow> double \<Rightarrow> double" where
  "fadd a b =
     (if a = NotANumber \<or> b = NotANumber then NotANumber
      else if (a = PInf \<and> b = NInf) \<or> (a = NInf \<and> b = PInf) then NotANumber
      else if a = PInf \<or> b = PInf then PInf
      else if a = NInf \<or> b = NInf then NInf
      else if a = NZero \<and> b = NZero then NZero
      else rnd (fin_val a + fin_val b))"

definition fsub :: "double \<Rightarrow> double \<Rightarrow> double" where
  "fsub a b = fadd a (fneg b)"

definition fdiv :: "double \<Rightarrow> double \<Rightarrow> double" where
  "fdiv a b =
     (if a = NotANumber \<or> b = NotANumber then NotANumber
      else if (is_inf a \<and> is_inf b) \<or> (is_zero a \<and> is_zero b) then NotANumber
      else if is_inf a \<or> is_zero b then (if is_neg a \<noteq> is_neg b then NInf else PInf)
      else if is_zero a \<or> is_inf b then (if is_neg a \<noteq> is_neg b then NZero else Fin 0)
      else rnd (fin_val a / fin_val b))"

text \<open>The order of the numbers that are not not-a-number: \<open>fle a b\<close> is \<open>a <= b\<close>; the two
  zeros are equal.\<close>

definition level :: "double \<Rightarrow> int" where
  "level d = (case d of NInf \<Rightarrow> - 1 | PInf \<Rightarrow> 1 | _ \<Rightarrow> 0)"

definition fle :: "double \<Rightarrow> double \<Rightarrow> bool" where
  "fle a b = (a \<noteq> NotANumber \<and> b \<noteq> NotANumber
              \<and> (level a < level b \<or> (level a = level b \<and> fin_val a \<le> fin_val b)))"

text \<open>The sign of a number as a sort reads it from its comparator: a not-a-number counts
  as zero.\<close>

definition fsign :: "double \<Rightarrow> int" where
  "fsign d = (case d of NotANumber \<Rightarrow> 0 | PInf \<Rightarrow> 1 | NInf \<Rightarrow> - 1 | NZero \<Rightarrow> 0
              | Fin q \<Rightarrow> if q < 0 then - 1 else if 0 < q then 1 else 0)"

text \<open>A finite number: a zero or a finite value within the range of the format.\<close>

definition finite_double :: "double \<Rightarrow> bool" where
  "finite_double d = (case d of Fin q \<Rightarrow> \<bar>q\<bar> < 2 powi 1024 | NZero \<Rightarrow> True | _ \<Rightarrow> False)"

text \<open>The values that are multiples of the smallest positive number \<open>2 ^ - 1074\<close>; every
  finite result of an operation is one.\<close>

definition on_grid :: "real \<Rightarrow> bool" where
  "on_grid v = (\<exists>k::int. v = of_int k * 2 powi (- 1074))"

definition gridd :: "double \<Rightarrow> bool" where
  "gridd d = (\<forall>q. d = Fin q \<longrightarrow> on_grid q)"

definition is_fin :: "double \<Rightarrow> bool" where
  "is_fin d = (case d of NZero \<Rightarrow> True | Fin q \<Rightarrow> True | _ \<Rightarrow> False)"


text \<open>The number that a decimal literal of the program text denotes.\<close>

definition lit :: "real \<Rightarrow> double" where
  "lit q = rnd q"

section \<open>The ingest orchestrator (ingest/github/ingest.ts)\<close>

text \<open>\<open>text.includes(needle)\<close>.\<close>

fun includes_str :: "string \<Rightarrow> string \<Rightarrow> bool" where
  "includes_str [] needle = (needle = [])"
| "includes_str (c # cs) needle = (take (length needle) (c # cs) = needle \<or> includes_str cs needle)"

text \<open>\<open>toLowerCase\<close> on the code units below 256: A to Z, and the capital letters of
  Latin-1 (192 to 222 without the multiplication sign 215).\<close>

definition lower_char :: "char \<Rightarrow> char" where
  "lower_char c =
     (if (65 \<le> code c \<and> code c \<le> 90) \<or> (192 \<le> code c \<and> code c \<le> 222 \<and> code c \<noteq> 215)
      then char_of (code c + 32) else c)"

definition toLowerCase :: "string \<Rightarrow> string" where
  "toLowerCase s = map lower_char s"

text \<open>\<open>text.split(/\r?\n/)\<close>: split at every line feed, a carriage return just before it
  belongs to the separator.\<close>

definition strip_cr :: "string \<Rightarrow> string" where
  "strip_cr l = (if l \<noteq> [] \<and> last l = CHR 0x0D then butlast l else l)"

definition split_lines :: "string \<Rightarrow> string list" where
  "split_lines s =
     (let ps = split_on CHR 0x0A s in map strip_cr (butlast ps) @ [last ps])"

definition is_line_terminator :: "char \<Rightarrow> bool" where
  "is_line_terminator c = (c = CHR 0x0A \<or> c = CHR 0x0D)"

text \<open>\<open>containsCodeSnippet\<close> (chunk/utils.ts): a fence, a line indented by four spaces
  or a tab that has a character after the indent, or an opening \<open>pre\<close> or \<open>code\<close> tag.\<close>

fun starts_indented_line :: "string \<Rightarrow> bool" where
  "starts_indented_line s =
     ((take 4 s = ''    '' \<and> length s > 4 \<and> \<not> is_line_terminator (s ! 4))
      \<or> (take 1 s = [CHR 0x09] \<and> length s > 1 \<and> \<not> is_line_terminator (s ! 1)))"

text \<open>\<open>/^(?:[ ]{4}|\t).+/m\<close>: the attempt at the start of the text and after every line
  terminator.\<close>

fun has_indented_line :: "bool \<Rightarrow> string \<Rightarrow> bool" where
  "has_indented_line atStart [] = False"
| "has_indented_line atStart (c # cs) =
     ((atStart \<and> starts_indented_line (c # cs)) \<or> has_indented_line (is_line_terminator c) cs)"

fun has_pre_or_code_tag :: "string \<Rightarrow> bool" where
  "has_pre_or_code_tag [] = False"
| "has_pre_or_code_tag (c # cs) =
     ((c = CHR ''<'' \<and>
        ((toLowerCase (take 3 cs) = ''pre'' \<and> length cs > 3
            \<and> (is_space (cs ! 3) \<or> cs ! 3 = CHR ''>''))
         \<or> (toLowerCase (take 4 cs) = ''code'' \<and> length cs > 4
            \<and> (is_space (cs ! 4) \<or> cs ! 4 = CHR ''>''))))
      \<or> has_pre_or_code_tag cs)"

definition containsCodeSnippet :: "string \<Rightarrow> bool" where
  "containsCodeSnippet c =
     (if includes_str c ''```'' \<or> includes_str c ''~~~'' then True
      else if has_indented_line True c then True
      else if has_pre_or_code_tag c then True
      else False)"

definition DOC_EXTENSIONS :: "string list" where
  "DOC_EXTENSIONS = [''md'', ''mdx'', ''markdown'', ''rst'', ''adoc'', ''txt'']"

definition isDocFile :: "string \<Rightarrow> bool" where
  "isDocFile p =
     (let parts = split_on CHR ''.'' (toLowerCase p) in
      if length parts \<le> 1 then False else last parts \<in> set DOC_EXTENSIONS)"

text \<open>\<open>/^#\s+(.*)$/\<close> on one line: the group is what follows the white space after the
  hash, and it may not hold a line terminator.\<close>

definition match_h1 :: "string \<Rightarrow> string option" where
  "match_h1 line =
     (case line of
        [] \<Rightarrow> None
      | c # r \<Rightarrow>
          if c = CHR ''#'' \<and> takeWhile is_space r \<noteq> []
             \<and> \<not> list_ex is_line_terminator (dropWhile is_space r)
          then Some (dropWhile is_space r) else None)"

fun extractTitleLines :: "string list \<Rightarrow> string option" where
  "extractTitleLines [] = None"
| "extractTitleLines (line # ls) =
     (case match_h1 line of
        Some g \<Rightarrow> if g \<noteq> [] then Some (trim g)
                  else if trim line \<noteq> [] then None else extractTitleLines ls
      | None \<Rightarrow> if trim line \<noteq> [] then None else extractTitleLines ls)"

definition extractTitle :: "string \<Rightarrow> string option" where
  "extractTitle c = extractTitleLines (split_lines c)"

definition buildGithubUri :: "string \<Rightarrow> string \<Rightarrow> string \<Rightarrow> string \<Rightarrow> string" where
  "buildGithubUri own rep rf rel = ''gh://'' @ own @ ''/'' @ rep @ ''@'' @ rf @ ''/'' @ rel"

definition buildPrefix :: "string \<Rightarrow> string \<Rightarrow> string \<Rightarrow> string list" where
  "buildPrefix own rep rf =
     (let base = own @ ''/'' @ rep in
      if rf \<noteq> [] \<and> rf \<noteq> ''HEAD'' then [base, rf] else [base])"

record SourceRow =
  src_id :: nat
  src_owner :: "string option"
  src_repo :: "string option"
  ingest_mode :: "string option"
  src_ref :: "string option"
  docs_path :: "string option"
  src_version_label :: "string option"
  last_commit :: "string option"
  last_etag :: "string option"

record ingestOptions =
  o_force :: "bool option"
  refOverride :: "string option"
  versionLabelOverride :: "string option"
  o_previousSha :: "string option"
  o_previousEtag :: "string option"

record fileResult =
  keepPath :: "string option"
  fr_updated :: nat
  fr_unchanged :: nat
  skippedNoCode :: nat

text \<open>What the orchestrator takes from outside: the time stamp, \<open>sha256Hex\<close>, the chunker
  \<open>buildDocumentChunks\<close> (content, file path, title, prefix), \<open>buildRepoTree\<close>, and the
  number of bound parameters that the database engine allows in one statement.\<close>

record ingestEnv =
  e_now :: string
  e_sha256Hex :: "string \<Rightarrow> string"
  e_buildDocumentChunks :: "string \<Rightarrow> string \<Rightarrow> string \<Rightarrow> string list \<Rightarrow> ChunkDraft list"
  e_buildRepoTree :: "string list \<Rightarrow> string"
  e_maxVariables :: nat

text \<open>\<open>extractTitle(file.content) ?? file.relPath.split("/").pop()\<close>.\<close>

definition fileTitle :: "LoadedFile \<Rightarrow> string" where
  "fileTitle file =
     (case extractTitle (fileContent file) of
        Some t \<Rightarrow> t
      | None \<Rightarrow> last (split_on CHR ''/'' (relPath file)))"

text \<open>The worker of \<open>runWithConcurrency\<close> for one file. Its database calls are
  synchronous; the files are taken here one after the other in list order. A database call
  that throws ends the run.\<close>

definition processFile ::
  "ingestEnv \<Rightarrow> string \<Rightarrow> string \<Rightarrow> nat \<Rightarrow> string \<Rightarrow> bool \<Rightarrow> db \<Rightarrow> LoadedFile
    \<Rightarrow> storeError + (db \<times> fileResult)" where
  "processFile env own rep sourceId versionLabel useDocsOnly d file =
     (let isDoc = isDocFile (relPath file) in
      if (useDocsOnly \<or> isDoc) \<and> \<not> containsCodeSnippet (fileContent file)
      then Inr (d, \<lparr>keepPath = None, fr_updated = 0, fr_unchanged = 0, skippedNoCode = 1\<rparr>)
      else
        (let ttl = fileTitle file;
             u = buildGithubUri own rep versionLabel (relPath file);
             contentType = (if isDoc then ''text/markdown'' else ''text/plain'');
             (d1, docId, changed) = upsertDocument (e_now env) d
                \<lparr>in_sourceId = sourceId, in_path = relPath file, in_uri = u, in_title = ttl,
                 in_hash = fileHash file, in_contentType = contentType,
                 in_versionLabel = versionLabel, in_content = fileContent file\<rparr>
         in if \<not> changed
            then Inr (d1, \<lparr>keepPath = Some (relPath file), fr_updated = 0, fr_unchanged = 1,
                           skippedNoCode = 0\<rparr>)
            else
              (case deleteChunksForDocument (e_maxVariables env) d1 docId of
                 Inl err \<Rightarrow> Inl err
               | Inr d2 \<Rightarrow>
                   (let drafts = e_buildDocumentChunks env (fileContent file) (relPath file) ttl
                                   (buildPrefix own rep versionLabel)
                    in if length drafts = 0
                       then Inr (d2, \<lparr>keepPath = None, fr_updated = 0, fr_unchanged = 0,
                                      skippedNoCode = 1\<rparr>)
                       else Inr (fst (insertChunks (e_sha256Hex env) (e_now env) d2 docId
                                        (relPath file) u ttl drafts),
                                 \<lparr>keepPath = Some (relPath file), fr_updated = 1,
                                  fr_unchanged = 0, skippedNoCode = 0\<rparr>)))))"

fun processFiles ::
  "ingestEnv \<Rightarrow> string \<Rightarrow> string \<Rightarrow> nat \<Rightarrow> string \<Rightarrow> bool \<Rightarrow> db \<Rightarrow> LoadedFile list
    \<Rightarrow> storeError + (db \<times> fileResult list)" where
  "processFiles env own rep sourceId versionLabel useDocsOnly d [] = Inr (d, [])"
| "processFiles env own rep sourceId versionLabel useDocsOnly d (f # fs) =
     (case processFile env own rep sourceId versionLabel useDocsOnly d f of
        Inl err \<Rightarrow> Inl err
      | Inr (d1, r) \<Rightarrow>
          (case processFiles env own rep sourceId versionLabel useDocsOnly d1 fs of
             Inl err \<Rightarrow> Inl err
           | Inr (d2, rs) \<Rightarrow> Inr (d2, r # rs)))"

text \<open>The paths kept: \<open>if (item.keepPath) keepPaths.push(item.keepPath)\<close>.\<close>

definition keepPathsOf :: "fileResult list \<Rightarrow> string list" where
  "keepPathsOf rs = List.map_filter (\<lambda>r. if truthy (keepPath r) then keepPath r else None) rs"

text \<open>The part of \<open>ingestGithubSource\<close> that follows a sync with status \<open>ok\<close>: every
  loaded file goes through the worker, then the documents that were not kept are
  deactivated.\<close>

definition ingestFiles ::
  "ingestEnv \<Rightarrow> string \<Rightarrow> string \<Rightarrow> nat \<Rightarrow> string \<Rightarrow> bool \<Rightarrow> db \<Rightarrow> LoadedFile list
    \<Rightarrow> storeError + (db \<times> fileResult list)" where
  "ingestFiles env own rep sourceId versionLabel useDocsOnly d files =
     (case processFiles env own rep sourceId versionLabel useDocsOnly d files of
        Inl err \<Rightarrow> Inl err
      | Inr (d1, fileResults) \<Rightarrow>
          (case deactivateMissingDocuments (e_maxVariables env) d1 sourceId versionLabel
                  (keepPathsOf fileResults) of
             Inl err \<Rightarrow> Inl err
           | Inr (d2, n) \<Rightarrow> Inr (d2, fileResults)))"

record ingestSummary =
  s_processed :: nat
  s_updated :: nat
  s_unchanged :: nat
  s_skipped :: nat
  s_versionLabel :: string
  s_ref :: string
  s_commitSha :: "string option"
  s_etag :: "string option"
  s_treeHash :: "string option"

datatype ingestError = MissingOwnerOrRepo | SyncError error | StoreError storeError

definition orElse :: "'a option \<Rightarrow> 'a option \<Rightarrow> 'a option" where
  "orElse a b = (case a of Some x \<Rightarrow> Some x | None \<Rightarrow> b)"

definition ingestVersionLabel :: "SourceRow \<Rightarrow> ingestOptions \<Rightarrow> string" where
  "ingestVersionLabel source opts =
     (case orElse (versionLabelOverride opts)
             (orElse (src_version_label source) (orElse (refOverride opts) (src_ref source))) of
        Some l \<Rightarrow> l
      | None \<Rightarrow> ''HEAD'')"

definition ingestUseDocsOnly :: "SourceRow \<Rightarrow> bool" where
  "ingestUseDocsOnly source =
     (toLowerCase (case ingest_mode source of Some m \<Rightarrow> m | None \<Rightarrow> ''docs'') \<noteq> ''repo'')"

definition ingestForce :: "ingestOptions \<Rightarrow> bool" where
  "ingestForce opts = (case o_force opts of Some b \<Rightarrow> b | None \<Rightarrow> False)"

text \<open>The call of \<open>syncGithubRepo\<close> that \<open>ingestGithubSource\<close> makes. The world is what
  download and extraction give for the reference requested.\<close>

definition ingestSync ::
  "ingestEnv \<Rightarrow> syncWorld \<Rightarrow> SourceRow \<Rightarrow> ingestOptions \<Rightarrow> error + GithubSyncResult" where
  "ingestSync env w source opts =
     syncGithubRepo (e_buildRepoTree env) w
       (if ingestForce opts then None else orElse (o_previousSha opts) (last_commit source))
       (ingestForce opts) False"

definition ingestGithubSource ::
  "ingestEnv \<Rightarrow> syncWorld \<Rightarrow> db \<Rightarrow> SourceRow \<Rightarrow> ingestOptions \<Rightarrow> ingestError + (db \<times> ingestSummary)" where
  "ingestGithubSource env w d source opts =
     (if \<not> truthy (src_owner source) \<or> \<not> truthy (src_repo source) then Inl MissingOwnerOrRepo
      else
        (let own = the (src_owner source); rep = the (src_repo source);
             useDocsOnly = ingestUseDocsOnly source;
             rf = orElse (refOverride opts) (src_ref source);
             result = ingestSync env w source opts;
             versionLabel = ingestVersionLabel source opts;
             refText = (case rf of Some r \<Rightarrow> r | None \<Rightarrow> ''HEAD'')
         in case result of
              Inl e \<Rightarrow> Inl (SyncError e)
            | Inr (SyncNotModified nm) \<Rightarrow>
                Inr (d, \<lparr>s_processed = 0, s_updated = 0, s_unchanged = 0, s_skipped = 0,
                         s_versionLabel = versionLabel, s_ref = refText,
                         s_commitSha = nmCommitSha nm, s_etag = nmEtag nm, s_treeHash = None\<rparr>)
            | Inr (SyncOk r) \<Rightarrow>
                (case ingestFiles env own rep (src_id source) versionLabel useDocsOnly d
                        (okFiles r) of
                   Inl err \<Rightarrow> Inl (StoreError err)
                 | Inr (d2, fileResults) \<Rightarrow>
                     Inr (d2,
                      \<lparr>s_processed = okProcessedFiles r,
                       s_updated = sum_list (map fr_updated fileResults),
                       s_unchanged = sum_list (map fr_unchanged fileResults),
                       s_skipped = length (okSkipped r) + sum_list (map skippedNoCode fileResults),
                       s_versionLabel = versionLabel, s_ref = refText,
                       s_commitSha = Some (okCommitSha r), s_etag = okEtag r,
                       s_treeHash = Some (e_sha256Hex env (okTree r))\<rparr>))))"

text \<open>The files of a run whose documents stay active, told from the loaded file, the
  chunker and the documents before the run: the file has a path, it is not passed over for
  lack of a code snippet, and either a row of the same path and version already holds its
  hash, or the chunker gives at least one chunk for it.\<close>

definition keptFile ::
  "ingestEnv \<Rightarrow> string \<Rightarrow> string \<Rightarrow> nat \<Rightarrow> string \<Rightarrow> bool \<Rightarrow> document list \<Rightarrow> LoadedFile
    \<Rightarrow> bool" where
  "keptFile env own rep sourceId versionLabel useDocsOnly rows file =
     (relPath file \<noteq> []
      \<and> \<not> ((useDocsOnly \<or> isDocFile (relPath file)) \<and> \<not> containsCodeSnippet (fileContent file))
      \<and> (list_ex (\<lambda>row. source_id row = sourceId \<and> path row = relPath file
                          \<and> version_label row = versionLabel \<and> hash row = fileHash file) rows
           \<or> e_buildDocumentChunks env (fileContent file) (relPath file) (fileTitle file)
                (buildPrefix own rep versionLabel) \<noteq> []))"

definition keptThisRun :: "ingestEnv \<Rightarrow> SourceRow \<Rightarrow> ingestOptions \<Rightarrow> db \<Rightarrow> LoadedFile \<Rightarrow> bool" where
  "keptThisRun env source opts d file =
     keptFile env (the (src_owner source)) (the (src_repo source)) (src_id source)
       (ingestVersionLabel source opts) (ingestUseDocsOnly source) (documents d) file"

text \<open>A database with one deactivated document and its chunk, and an input that brings
  the same content again under a new title.\<close>

definition doc1 :: document where
  "doc1 = \<lparr>rowid = 1, source_id = 7, path = ''docs/a.md'', uri = ''gh://o/r@1.x/docs/a.md'',
           doc_title = ''Old'', hash = ''h1'', content_type = ''text/markdown'',
           version_label = ''1.x'', created_at = ''t0'', updated_at = ''t0'', active = 0\<rparr>"

definition chunk1 :: chunk where
  "chunk1 = \<lparr>chunk_id = 1, document_id = 1, position = 0, c_chunk_type = Doc,
             c_context_path = None, c_title = ''Old'', c_preview = None, c_language = None,
             c_symbol_name = None, c_symbol_type = None, c_symbol_id = None,
             c_symbol_part_index = None, c_symbol_part_count = None,
             c_line_start = Some 1, c_line_end = Some 2, c_char_start = None, c_char_end = None,
             c_token_count = 5, c_chunk_sha = ''s'', c_content = ''text'',
             c_doc_path = ''docs/a.md'', c_doc_uri = ''gh://o/r@1.x/docs/a.md'',
             c_doc_title = ''Old'', c_created_at = ''t0'', c_updated_at = ''t0''\<rparr>"

definition db1 :: db where
  "db1 = \<lparr>documents = [doc1],
          document_blobs = [\<lparr>blob_id = 1, blob_hash = ''h1'', blob_content = ''body'',
                             blob_created_at = ''t0''\<rparr>],
          chunks = [chunk1], vectors_vec = None,
          document_seq = 1, blob_seq = 1, chunk_seq = 1\<rparr>"

definition input1 :: docInput where
  "input1 = \<lparr>in_sourceId = 7, in_path = ''docs/a.md'', in_uri = ''gh://o/r@1.x/docs/a.md'',
             in_title = ''New'', in_hash = ''h1'', in_contentType = ''text/plain'',
             in_versionLabel = ''1.x'', in_content = ''body''\<rparr>"

text \<open>An environment whose chunker gives one draft for every file, and two loaded files:
  one with a fence, one without a code snippet.\<close>

definition draft0 :: ChunkDraft where
  "draft0 = \<lparr>content = ''c'', tokenCount = 1, chunkType = Doc, contextPath = None,
             title = None, preview = None, lineStart = None, lineEnd = None, charStart = None,
             charEnd = None, language = None, symbolName = None, symbolType = None,
             symbolId = None, symbolPartIndex = None, symbolPartCount = None\<rparr>"

definition env0 :: ingestEnv where
  "env0 = \<lparr>e_now = ''t1'', e_sha256Hex = (\<lambda>s. s),
           e_buildDocumentChunks = (\<lambda>c p t pre. [draft0]), e_buildRepoTree = (\<lambda>ps. []),
           e_maxVariables = 32766\<rparr>"

definition files0 :: "LoadedFile list" where
  "files0 = [\<lparr>relPath = ''docs/b.md'', fileContent = ''```x```'', lang = None,
              fileHash = ''h2'', byteSize = 7\<rparr>,
            \<lparr>relPath = ''docs/c.md'', fileContent = ''plain'', lang = None,
              fileHash = ''h3'', byteSize = 5\<rparr>]"

definition source0 :: SourceRow where
  "source0 = \<lparr>src_id = 7, src_owner = Some ''o'', src_repo = Some ''r'', ingest_mode = None,
              src_ref = None, docs_path = None, src_version_label = Some ''1.x'',
              last_commit = None, last_etag = None\<rparr>"

definition options0 :: ingestOptions where
  "options0 = \<lparr>o_force = None, refOverride = None, versionLabelOverride = None,
               o_previousSha = None, o_previousEtag = None\<rparr>"

definition world1 :: syncWorld where
  "world1 = \<lparr>wDownload = Inr (DownloadOk dl0), wExtract = Inr (Some ''o-r-0123abc''),
              wLoaded = files0, wSkipped = []\<rparr>"

text \<open>The same database with a second document, \<open>docs/c.md\<close>, that is active before the
  run.\<close>

definition doc2 :: document where
  "doc2 = \<lparr>rowid = 2, source_id = 7, path = ''docs/c.md'', uri = ''gh://o/r@1.x/docs/c.md'',
           doc_title = ''C'', hash = ''h3'', content_type = ''text/markdown'',
           version_label = ''1.x'', created_at = ''t0'', updated_at = ''t0'', active = 1\<rparr>"

definition db2 :: db where
  "db2 = db1\<lparr>documents := [doc1, doc2], document_seq := 2\<rparr>"

text \<open>The invariant of the file loop. \<open>rows0\<close> are the documents before the run, \<open>P\<close> the
  paths of the files taken so far and \<open>K\<close> the paths kept so far: the schema constraints
  hold, every row of the version whose path is kept is active and every kept path has a
  row, and the rows of a path not yet taken are those from before the run.\<close>

definition kept_active :: "document list \<Rightarrow> nat \<Rightarrow> string \<Rightarrow> string set \<Rightarrow> bool" where
  "kept_active rs sid vl K =
     (documents_ok rs \<and>
      (\<forall>r \<in> set rs. source_id r = sid \<and> version_label r = vl \<and> path r \<in> K \<longrightarrow> active r = 1))"

definition run_inv ::
  "document list \<Rightarrow> document list \<Rightarrow> nat \<Rightarrow> string \<Rightarrow> string set \<Rightarrow> string set \<Rightarrow> bool" where
  "run_inv rows0 rs sid vl P K =
     (kept_active rs sid vl K
      \<and> (\<forall>p \<in> K. (sid, p, vl) \<in> doc_key ` set rs)
      \<and> (\<forall>p. p \<notin> P \<longrightarrow> {r \<in> set rs. doc_key r = (sid, p, vl)}
                           = {r \<in> set rows0. doc_key r = (sid, p, vl)}))"

section \<open>Rank fusion (search/hybrid.ts)\<close>

text \<open>Scores and weights are numbers of the platform. A chunk id is a row id, and a rank
  is an array index plus one: both are integers far below \<open>2 ^ 53\<close>, where the arithmetic
  of the platform is exact, and are kept as natural numbers.\<close>

datatype hitSource = Fts | Vec

record SearchHit =
  chunkId :: nat
  docId :: nat
  score :: double
  h_source :: hitSource
  h_title :: string
  h_path :: string
  h_uri :: string
  h_sourceName :: string
  h_contextPath :: "string option"
  h_lineStart :: "int option"
  h_lineEnd :: "int option"
  h_tokenCount :: "nat option"
  h_preview :: "string option"
  h_content :: string

record fuseEntry =
  e_hit :: SearchHit
  e_score :: double
  e_bestRank :: nat

text \<open>The map \<open>scores\<close>, in insertion order: a new key goes to the end, an existing entry
  is updated in place.\<close>

type_synonym scoreMap = "(nat \<times> fuseEntry) list"

definition addHit :: "double \<Rightarrow> nat \<Rightarrow> SearchHit \<Rightarrow> scoreMap \<Rightarrow> scoreMap" where
  "addHit weight idx hit scores =
     (let rank = idx + 1;
          rrf = fdiv weight (Fin (of_nat (60 + rank)))
      in case map_of scores (chunkId hit) of
           None \<Rightarrow> scores @ [(chunkId hit, \<lparr>e_hit = hit, e_score = rrf, e_bestRank = rank\<rparr>)]
         | Some existing \<Rightarrow>
             map (\<lambda>(k, e). if k = chunkId hit
                    then (k, e\<lparr>e_score := fadd (e_score e) rrf,
                               e_bestRank := (if rank < e_bestRank e then rank else e_bestRank e)\<rparr>)
                    else (k, e)) scores)"

text \<open>\<open>weights[listIndex] ?? 1\<close>.\<close>

definition weightAt :: "double list \<Rightarrow> nat \<Rightarrow> double" where
  "weightAt weights i = (if i < length weights then weights ! i else Fin 1)"

definition fuseList :: "double \<Rightarrow> SearchHit list \<Rightarrow> scoreMap \<Rightarrow> scoreMap" where
  "fuseList weight hits scores = fold (\<lambda>(idx, hit). addHit weight idx hit) (enumerate 0 hits) scores"

definition fuseLists :: "double list \<Rightarrow> SearchHit list list \<Rightarrow> scoreMap \<Rightarrow> scoreMap" where
  "fuseLists weights hitLists scores =
     fold (\<lambda>(listIndex, hits). fuseList (weightAt weights listIndex) hits) (enumerate 0 hitLists) scores"

text \<open>The loop over \<open>scores.values()\<close> that adds the bonus.\<close>

definition addBonus :: "fuseEntry \<Rightarrow> fuseEntry" where
  "addBonus e =
     (if e_bestRank e = 1 then e\<lparr>e_score := fadd (e_score e) (lit (5 / 100))\<rparr>
      else if e_bestRank e \<le> 3 then e\<lparr>e_score := fadd (e_score e) (lit (2 / 100))\<rparr>
      else e)"

text \<open>\<open>Array.from(scores.values())\<close> after the two loops.\<close>

definition fuseEntries :: "SearchHit list list \<Rightarrow> double list \<Rightarrow> fuseEntry list" where
  "fuseEntries hitLists weights = map (\<lambda>(k, e). addBonus e) (fuseLists weights hitLists [])"

text \<open>The comparator \<open>(a, b) => b.score - a.score\<close>, of which the sort reads the sign.\<close>

definition compareScore :: "fuseEntry \<Rightarrow> fuseEntry \<Rightarrow> int" where
  "compareScore a b = fsign (fsub (e_score b) (e_score a))"

text \<open>\<open>.sort(...)\<close>: the whole ranking, before it is cut.\<close>

definition fuseRanking :: "SearchHit list list \<Rightarrow> double list \<Rightarrow> fuseEntry list" where
  "fuseRanking hitLists weights = js_sort compareScore (fuseEntries hitLists weights)"

text \<open>\<open>{ ...entry.hit, score: entry.score }\<close>.\<close>

definition toHit :: "fuseEntry \<Rightarrow> SearchHit" where
  "toHit e = (e_hit e)\<lparr>score := e_score e\<rparr>"

definition fuseRankedLists :: "SearchHit list list \<Rightarrow> double list \<Rightarrow> int \<Rightarrow> SearchHit list" where
  "fuseRankedLists hitLists weights limit =
     map toHit (slice0 limit (fuseRanking hitLists weights))"

text \<open>The score in the words of the specification. The terms of a chunk: one
  \<open>weight / (60 + rank)\<close> for every place at which a list holds the chunk, rank from 1, in
  the order of the lists and of the places. Their sum is taken from left to right.\<close>

definition termsOf :: "SearchHit list list \<Rightarrow> double list \<Rightarrow> nat \<Rightarrow> double list" where
  "termsOf hitLists weights c =
     concat (map (\<lambda>(i, hits).
                    map (\<lambda>(j, h). fdiv (weightAt weights i) (Fin (of_nat (60 + (j + 1)))))
                      (filter (\<lambda>(j, h). chunkId h = c) (enumerate 0 hits)))
               (enumerate 0 hitLists))"

definition fsum :: "double list \<Rightarrow> double" where
  "fsum ts = (case ts of [] \<Rightarrow> Fin 0 | t # r \<Rightarrow> foldl fadd t r)"

definition rrfSum :: "SearchHit list list \<Rightarrow> double list \<Rightarrow> nat \<Rightarrow> double" where
  "rrfSum hitLists weights c = fsum (termsOf hitLists weights c)"

text \<open>The ranks at which the lists hold the chunk, and the best of them.\<close>

definition ranksOf :: "SearchHit list list \<Rightarrow> nat \<Rightarrow> nat list" where
  "ranksOf hitLists c =
     concat (map (\<lambda>hits. map (\<lambda>(j, h). j + 1) (filter (\<lambda>(j, h). chunkId h = c) (enumerate 0 hits)))
               hitLists)"

definition bestRankOf :: "SearchHit list list \<Rightarrow> nat \<Rightarrow> nat" where
  "bestRankOf hitLists c = Min (set (ranksOf hitLists c))"

text \<open>The sum with the bonus: 0.05 for a best rank of 1, else 0.02 for a best rank of at
  most 3.\<close>

definition rrfScore :: "SearchHit list list \<Rightarrow> double list \<Rightarrow> nat \<Rightarrow> double" where
  "rrfScore hitLists weights c =
     (let s = rrfSum hitLists weights c; r = bestRankOf hitLists c in
      if r = 1 then fadd s (lit (5 / 100))
      else if r \<le> 3 then fadd s (lit (2 / 100))
      else s)"

text \<open>The first hit that the lists hold for a chunk.\<close>

definition firstHit :: "SearchHit list list \<Rightarrow> nat \<Rightarrow> SearchHit option" where
  "firstHit hitLists c = find (\<lambda>h. chunkId h = c) (concat hitLists)"

text \<open>The lists of the test of the repository: A holds chunks 1 and 2, B holds chunks 2
  and 3, the weights are 2 and 1.\<close>

definition baseHit :: "nat \<Rightarrow> SearchHit" where
  "baseHit c = \<lparr>chunkId = c, docId = 1, score = Fin 1, h_source = Fts, h_title = ''Doc'',
                h_path = ''doc.md'', h_uri = ''uri'', h_sourceName = [], h_contextPath = None,
                h_lineStart = None, h_lineEnd = None, h_tokenCount = None, h_preview = None,
                h_content = ''content''\<rparr>"

definition listA :: "SearchHit list" where
  "listA = [baseHit 1, baseHit 2]"

definition listB :: "SearchHit list" where
  "listB = [baseHit 2, baseHit 3]"

text \<open>The hits in the order in which the two loops visit them, each with the weight of
  its list and its index; what an entry must hold after a sequence of visits.\<close>

definition eventsOf :: "double list \<Rightarrow> SearchHit list list \<Rightarrow> (double \<times> nat \<times> SearchHit) list" where
  "eventsOf weights hitLists =
     concat (map (\<lambda>(i, hits). map (\<lambda>(j, h). (weightAt weights i, j, h)) (enumerate 0 hits))
               (enumerate 0 hitLists))"

definition evTerms :: "(double \<times> nat \<times> SearchHit) list \<Rightarrow> nat \<Rightarrow> double list" where
  "evTerms es k =
     map (\<lambda>(w, j, h). fdiv w (Fin (of_nat (60 + (j + 1)))))
       (filter (\<lambda>(w, j, h). chunkId h = k) es)"

definition evRanks :: "(double \<times> nat \<times> SearchHit) list \<Rightarrow> nat \<Rightarrow> nat list" where
  "evRanks es k = map (\<lambda>(w, j, h). j + 1) (filter (\<lambda>(w, j, h). chunkId h = k) es)"

definition evFirst :: "(double \<times> nat \<times> SearchHit) list \<Rightarrow> nat \<Rightarrow> SearchHit option" where
  "evFirst es k = find (\<lambda>h. chunkId h = k) (map (\<lambda>(w, j, h). h) es)"

definition fuseInv :: "scoreMap \<Rightarrow> (double \<times> nat \<times> SearchHit) list \<Rightarrow> bool" where
  "fuseInv scores es =
     (distinct (map fst scores)
      \<and> (\<forall>(w, j, h) \<in> set es. chunkId h \<in> fst ` set scores)
      \<and> (\<forall>(k, e) \<in> set scores.
            e_score e = fsum (evTerms es k)
            \<and> evRanks es k \<noteq> [] \<and> e_bestRank e = Min (set (evRanks es k))
            \<and> evFirst es k = Some (e_hit e)))"

text \<open>A score that the sort can compare: it is not not-a-number, and a finite one is a
  multiple of the smallest positive number.\<close>

definition comparable :: "double \<Rightarrow> bool" where
  "comparable s = (s \<noteq> NotANumber \<and> gridd s)"

section \<open>Full-text search (store/search.ts)\<close>

record ftsRow =
  f_chunkId :: nat
  f_score :: real
  f_docId :: nat
  f_title :: string
  f_path :: string
  f_uri :: string
  f_contextPath :: "string option"
  f_lineStart :: "int option"
  f_lineEnd :: "int option"
  f_tokenCount :: "nat option"
  f_preview :: "string option"
  f_content :: string

text \<open>What a statement throws: an \<open>Error\<close> with its message, or another value with the
  text \<open>String\<close> gives for it.\<close>

datatype thrown = ErrorObject string | OtherValue string

definition thrownMessage :: "thrown \<Rightarrow> string" where
  "thrownMessage e = (case e of ErrorObject m \<Rightarrow> m | OtherValue s \<Rightarrow> s)"

definition isFtsSyntaxError :: "thrown \<Rightarrow> bool" where
  "isFtsSyntaxError e =
     (let lower = toLowerCase (thrownMessage e) in
      includes_str lower ''fts5'' \<or> includes_str lower ''syntax error''
        \<or> includes_str lower ''no such column'')"

text \<open>The general categories L (letter) and N (number) of Unicode on the code points
  below 256.\<close>

definition is_letter :: "char \<Rightarrow> bool" where
  "is_letter c =
     ((65 \<le> code c \<and> code c \<le> 90) \<or> (97 \<le> code c \<and> code c \<le> 122)
      \<or> code c \<in> {170, 181, 186}
      \<or> (192 \<le> code c \<and> code c \<le> 214) \<or> (216 \<le> code c \<and> code c \<le> 246)
      \<or> (248 \<le> code c \<and> code c \<le> 255))"

definition is_number :: "char \<Rightarrow> bool" where
  "is_number c = (is_digit c \<or> code c \<in> {178, 179, 185, 188, 189, 190})"

definition is_word :: "char \<Rightarrow> bool" where
  "is_word c = (is_letter c \<or> is_number c \<or> c = CHR ''_'')"

definition is_quote :: "char \<Rightarrow> bool" where
  "is_quote c = (c = CHR 0x22 \<or> c = CHR 0x27 \<or> c = CHR 0x60)"

text \<open>\<open>s.replace(/[class]+/g, " ")\<close>: every maximal run of characters of the class
  becomes one space.\<close>

function replace_runs :: "(char \<Rightarrow> bool) \<Rightarrow> string \<Rightarrow> string" where
  "replace_runs P [] = []"
| "replace_runs P (c # cs) =
     (if P c then CHR '' '' # replace_runs P (dropWhile P cs) else c # replace_runs P cs)"
  by pat_completeness auto
termination
  by (relation "measure (\<lambda>(P, s). length s)")
     (auto simp: length_dropWhile_le less_Suc_eq_le)

definition cleanFtsQuery :: "string \<Rightarrow> string" where
  "cleanFtsQuery trimmed =
     trim (replace_runs is_space (replace_runs (\<lambda>c. \<not> is_word c) (replace_runs is_quote trimmed)))"

definition normalizeFtsQuery :: "string \<Rightarrow> string" where
  "normalizeFtsQuery input =
     (let trimmed = trim input;
          cleaned = cleanFtsQuery trimmed
      in if cleaned \<noteq> [] then cleaned else trimmed)"

definition rescore :: "ftsRow \<Rightarrow> ftsRow" where
  "rescore row = row\<lparr>f_score := 1 / (1 + max 0 \<bar>f_score row\<bar>)\<rparr>"

text \<open>\<open>searchFTS\<close>. The engine is a parameter: what the prepared statement gives for an
  FTS query, a version label (when one is given and not empty) and a limit: the rows with
  their bm25 score, or what it throws.\<close>

definition searchFTS ::
  "(string \<Rightarrow> string option \<Rightarrow> int \<Rightarrow> thrown + ftsRow list) \<Rightarrow> string \<Rightarrow> int \<Rightarrow> string option
    \<Rightarrow> thrown + ftsRow list" where
  "searchFTS engine query limit versionLabel =
     (let run = (\<lambda>ftsQuery. engine ftsQuery (if truthy versionLabel then versionLabel else None) limit)
      in case run query of
           Inr results \<Rightarrow> Inr (map rescore results)
         | Inl err \<Rightarrow>
             if \<not> isFtsSyntaxError err then Inl err
             else (let fallback = normalizeFtsQuery query in
                   if fallback = [] \<or> fallback = query then Inl err
                   else (case run fallback of
                           Inl err2 \<Rightarrow> Inl err2
                         | Inr results \<Rightarrow> Inr (map rescore results))))"

text \<open>An engine that refuses a star after a blank and finds one row for a star alone.\<close>

definition row0 :: ftsRow where
  "row0 = \<lparr>f_chunkId = 1, f_score = - 3, f_docId = 1, f_title = ''t'', f_path = ''p'',
           f_uri = ''u'', f_contextPath = None, f_lineStart = None, f_lineEnd = None,
           f_tokenCount = None, f_preview = None, f_content = ''c''\<rparr>"

definition engine0 :: "string \<Rightarrow> string option \<Rightarrow> int \<Rightarrow> thrown + ftsRow list" where
  "engine0 q v n =
     (if q = '' *'' \<or> q = ''next.js'' then Inl (ErrorObject ''fts5: syntax error near ...'')
      else if q = ''*'' \<or> q = ''next js'' then Inr [row0]
      else Inr [])"

section \<open>Chunking (chunk/utils.ts, chunk/markdown.ts)\<close>

definition approxTokens :: "string \<Rightarrow> nat" where
  "approxTokens text = max 1 ((length text + 3) div 4)"

definition buildPreview :: "string \<Rightarrow> nat \<Rightarrow> string" where
  "buildPreview text limit =
     (let cleaned = trim (replace_runs is_space text) in
      if cleaned = [] then []
      else if length cleaned \<le> limit then cleaned
      else take (limit - 3) cleaned @ ''...'')"

text \<open>\<open>wrapCodeFence\<close>: the label is the language when it is given and not empty.\<close>

definition wrapCodeFence :: "string \<Rightarrow> string option \<Rightarrow> string" where
  "wrapCodeFence c lg =
     (let label = (if truthy lg then the lg else []) in
      ''```'' @ label @ [CHR 0x0A] @ trimEnd c @ [CHR 0x0A] @ ''```'')"

definition MAX_CHUNK_TOKENS :: nat where "MAX_CHUNK_TOKENS = 600"
definition PREFERRED_MIN_TOKENS :: nat where "PREFERRED_MIN_TOKENS = 200"
definition MIN_CHUNK_TOKENS :: nat where "MIN_CHUNK_TOKENS = 40"
definition OVERLAP_TOKENS :: nat where "OVERLAP_TOKENS = 60"
definition PREVIEW_CHAR_LIMIT :: nat where "PREVIEW_CHAR_LIMIT = 220"

definition makeChunk ::
  "string \<Rightarrow> string \<Rightarrow> string \<Rightarrow> int \<Rightarrow> int \<Rightarrow> chunkType \<Rightarrow> ChunkDraft" where
  "makeChunk c breadcrumb ttl startLine endLine ct =
     \<lparr>content = c, tokenCount = approxTokens c, chunkType = ct, contextPath = Some breadcrumb,
      title = Some ttl, preview = Some (buildPreview c PREVIEW_CHAR_LIMIT),
      lineStart = Some startLine, lineEnd = Some endLine, charStart = None, charEnd = None,
      language = None, symbolName = None, symbolType = None, symbolId = None,
      symbolPartIndex = None, symbolPartCount = None\<rparr>"

text \<open>\<open>takeOverlapLines\<close>: lines are taken from the end until their tokens reach the
  overlap. The first argument of the loop is what is left to visit, last line first.\<close>

fun takeOverlapLoop :: "string list \<Rightarrow> nat \<Rightarrow> nat \<Rightarrow> string list \<Rightarrow> string list" where
  "takeOverlapLoop [] tokens overlapTokens overlap = overlap"
| "takeOverlapLoop (line # ls) tokens overlapTokens overlap =
     (let overlap' = line # overlap;
          tokens' = tokens + approxTokens line
      in if tokens' \<ge> overlapTokens then overlap'
         else takeOverlapLoop ls tokens' overlapTokens overlap')"

definition takeOverlapLines :: "string list \<Rightarrow> nat \<Rightarrow> string list" where
  "takeOverlapLines ls overlapTokens = takeOverlapLoop (rev ls) 0 overlapTokens []"

definition clampToTokens :: "string \<Rightarrow> nat \<Rightarrow> string" where
  "clampToTokens text limit =
     (if approxTokens text \<le> limit then text
      else trimEnd (take (max 1 (limit * 4)) text))"

text \<open>\<open>mergeSmallChunks\<close>: the loop over the chunks with its buffer.\<close>

fun mergeSmallLoop :: "ChunkDraft option \<Rightarrow> ChunkDraft list \<Rightarrow> ChunkDraft list \<Rightarrow> ChunkDraft list" where
  "mergeSmallLoop buffer [] merged = (case buffer of None \<Rightarrow> merged | Some b \<Rightarrow> merged @ [b])"
| "mergeSmallLoop None (c # cs) merged = mergeSmallLoop (Some c) cs merged"
| "mergeSmallLoop (Some b) (c # cs) merged =
     (if tokenCount b < PREFERRED_MIN_TOKENS then
        (let combined = trim (content b @ [CHR 0x0A, CHR 0x0A] @ content c);
             tokens = approxTokens combined
         in if tokens \<le> MAX_CHUNK_TOKENS
            then mergeSmallLoop
                   (Some (b\<lparr>content := combined, tokenCount := tokens,
                            preview := Some (buildPreview combined PREVIEW_CHAR_LIMIT),
                            lineEnd := (case lineEnd c of None \<Rightarrow> lineEnd b | Some e \<Rightarrow> Some e)\<rparr>))
                   cs merged
            else mergeSmallLoop (Some c) cs (merged @ [b]))
      else mergeSmallLoop (Some c) cs (merged @ [b]))"

definition mergeSmallChunks :: "ChunkDraft list \<Rightarrow> ChunkDraft list" where
  "mergeSmallChunks cs = (if length cs \<le> 1 then cs else mergeSmallLoop None cs [])"

text \<open>The \<open>while\<close> loop of \<open>enforceTokenLimit\<close> over the lines of the content: the lines
  left, the line cursor, the lines of the current group and the chunks made so far.\<close>

fun splitLoop ::
  "string \<Rightarrow> string \<Rightarrow> int \<Rightarrow> chunkType \<Rightarrow> string list \<Rightarrow> nat \<Rightarrow> string list \<Rightarrow> ChunkDraft list
    \<Rightarrow> string list \<times> ChunkDraft list" where
  "splitLoop breadcrumb ttl startLine ct [] lineCursor current cs = (current, cs)"
| "splitLoop breadcrumb ttl startLine ct (line # rest) lineCursor current cs =
     (let current1 = current @ [line];
          currentTokens = approxTokens (join [CHR 0x0A] current1)
      in if currentTokens \<ge> MAX_CHUNK_TOKENS then
           (let chunkText = trim (join [CHR 0x0A] current1);
                cs1 = (if approxTokens chunkText \<ge> MIN_CHUNK_TOKENS
                       then cs @ [makeChunk chunkText breadcrumb ttl
                                    (startLine + int lineCursor - int (length current1) + 1)
                                    (startLine + int lineCursor) ct]
                       else cs);
                overlapLines = takeOverlapLines current1 OVERLAP_TOKENS
            in splitLoop breadcrumb ttl startLine ct rest (lineCursor + 1) overlapLines cs1)
         else splitLoop breadcrumb ttl startLine ct rest (lineCursor + 1) current1 cs)"

definition enforceTokenLimit ::
  "string \<Rightarrow> string \<Rightarrow> string list \<Rightarrow> int \<Rightarrow> int \<Rightarrow> chunkType \<Rightarrow> ChunkDraft list" where
  "enforceTokenLimit c breadcrumb pth startLine endLine ct =
     (let tokenCnt = approxTokens c;
          ttl = (if pth = [] then ''Document'' else last pth)
      in if tokenCnt \<le> MAX_CHUNK_TOKENS
         then [makeChunk c breadcrumb ttl startLine endLine ct]
         else
           (let rawLines = split_on CHR 0x0A c;
                (current, cs) = splitLoop breadcrumb ttl startLine ct rawLines 0 [] [];
                cs1 = (if length current > 0 then
                         (let chunkText = trim (join [CHR 0x0A] current) in
                          if approxTokens chunkText \<ge> MIN_CHUNK_TOKENS
                          then cs @ [makeChunk chunkText breadcrumb ttl
                                       (endLine - int (length current) + 1) endLine ct]
                          else cs)
                       else cs);
                cs2 = (if length cs1 = 0 \<and> tokenCnt > 0
                       then cs1 @ [makeChunk (clampToTokens c MAX_CHUNK_TOKENS) breadcrumb ttl
                                     startLine endLine ct]
                       else cs1)
            in mergeSmallChunks cs2))"

text \<open>Contents for the examples: a breadcrumb and one line of 2400 characters; a breadcrumb, a
  first line, 2400 line feeds and a last line; exactly 2400 characters on one line.\<close>

definition longLineContent :: string where
  "longLineContent = ''A'' @ [CHR 0x0A, CHR 0x0A] @ replicate 2400 CHR ''x''"

definition blankLinesContent :: string where
  "blankLinesContent = ''A'' @ [CHR 0x0A, CHR 0x0A] @ ''x'' @ replicate 2400 (CHR 0x0A) @ ''B''"

definition exact600Content :: string where
  "exact600Content = replicate 2400 CHR ''x''"

text \<open>A text that \<open>trim\<close> leaves as it is and that is not empty; a chunk whose token
  count is that of its content, is at least the minimum, and whose content is trimmed.\<close>

definition is_trimmed :: "string \<Rightarrow> bool" where
  "is_trimmed s = (s \<noteq> [] \<and> \<not> is_space (hd s) \<and> \<not> is_space (last s))"

definition min_sized :: "ChunkDraft \<Rightarrow> bool" where
  "min_sized c = (tokenCount c = approxTokens (content c) \<and> MIN_CHUNK_TOKENS \<le> tokenCount c
                  \<and> is_trimmed (content c))"

section \<open>Verification\<close>

subsection \<open>Splitting\<close>

lemma split_on_nonempty: "split_on c s \<noteq> []"
  by (induction s) (auto split: list.splits)

lemma split_on_none: "c \<notin> set s \<Longrightarrow> split_on c s = [s]"
  by (induction s) auto

lemma split_on_append: "split_on c (a @ c # b) = split_on c a @ split_on c b"
proof (induction a)
  case Nil
  show ?case by simp
next
  case (Cons x a)
  obtain l ls where "split_on c a = l # ls"
    using split_on_nonempty [of c a] by (cases "split_on c a") auto
  with Cons show ?case by simp
qed

lemma takeWhile_rev_all: "c \<notin> set s \<Longrightarrow> takeWhile (\<lambda>x. x \<noteq> c) (rev s) = rev s"
  by (rule takeWhile_eq_all_conv [THEN iffD2]) auto

lemma after_last_none: "c \<notin> set s \<Longrightarrow> after_last c s = s"
  by (simp add: after_last_def takeWhile_rev_all)

lemma after_last_append: "c \<notin> set b \<Longrightarrow> after_last c (a @ c # b) = b"
  by (simp add: after_last_def takeWhile_append takeWhile_rev_all)

lemma last_split_on: "last (split_on c s) = after_last c s"
proof (cases "c \<in> set s")
  case False
  then show ?thesis by (simp add: split_on_none after_last_none)
next
  case True
  then obtain a b where "s = a @ c # b" "c \<notin> set b"
    by (auto dest: split_list_last)
  then show ?thesis
    by (simp add: split_on_append split_on_none after_last_append)
qed

subsection \<open>Version planning\<close>

text \<open>
  Claim C9. With the tags v16.2.0, v16.1.0, v15.9.9 and the series label 16.x,
  \<open>pickLatestForSeries\<close> returns v16.2.0; \<open>extractMajorVersion\<close> of v16.2.3 is 16.x;
  \<open>parseSeriesLabel\<close> of main is null.
\<close>

theorem version_planning_scenario:
  "pickLatestForSeries [''v16.2.0'', ''v16.1.0'', ''v15.9.9''] ''16.x'' = Some ''v16.2.0''
   \<and> extractMajorVersion ''v16.2.3'' = ''16.x''
   \<and> parseSeriesLabel ''main'' = None"
  by code_simp

subsection \<open>The size limit of the archive download\<close>

lemma readAll_ok_iff:
  "loaded \<le> cap \<Longrightarrow>
   (\<exists>p. readAll cap rs acc loaded = Inr p) \<longleftrightarrow> loaded + bodySize rs \<le> cap"
  by (induction cap rs acc loaded rule: readAll.induct)
     (auto simp: bodySize_def Let_def split: if_splits)

lemma readAll_error_iff:
  "(\<exists>e. readAll cap rs [] 0 = Inl e) \<longleftrightarrow> cap < bodySize rs"
proof -
  have "(\<exists>p. readAll cap rs [] 0 = Inr p) \<longleftrightarrow> bodySize rs \<le> cap"
    using readAll_ok_iff [of 0 cap rs "[]"] by simp
  moreover have "(\<exists>e. readAll cap rs [] 0 = Inl e) \<longleftrightarrow> \<not> (\<exists>p. readAll cap rs [] 0 = Inr p)"
    by (cases "readAll cap rs [] 0") auto
  ultimately show ?thesis by auto
qed

text \<open>The loop throws as soon as the running total is over the limit: the error carries
  the total after the first chunk that exceeds it, and the chunks before it fitted.\<close>

lemma readAll_first_excess:
  "readAll cap rs acc loaded = Inl e \<Longrightarrow>
   \<exists>k < length rs. e = StreamTooLarge cap (loaded + bodySize (take (Suc k) rs))
       \<and> cap < loaded + bodySize (take (Suc k) rs)
       \<and> (loaded \<le> cap \<longrightarrow> loaded + bodySize (take k rs) \<le> cap)"
proof (induction cap rs acc loaded rule: readAll.induct)
  case (1 cap acc loaded)
  then show ?case by simp
next
  case (2 cap rs acc loaded)
  then obtain k where "k < length rs" "e = StreamTooLarge cap (loaded + bodySize (take (Suc k) rs))"
    "cap < loaded + bodySize (take (Suc k) rs)" "loaded \<le> cap \<longrightarrow> loaded + bodySize (take k rs) \<le> cap"
    by auto
  then show ?case
    by (intro exI [of _ "Suc k"]) (simp add: bodySize_def)
next
  case (3 cap v rs acc loaded)
  show ?case
  proof (cases "cap < loaded + length v")
    case True
    with 3 show ?thesis
      by (intro exI [of _ 0]) (simp add: bodySize_def)
  next
    case False
    with 3 obtain k where "k < length rs"
      "e = StreamTooLarge cap (loaded + length v + bodySize (take (Suc k) rs))"
      "cap < loaded + length v + bodySize (take (Suc k) rs)"
      "loaded + length v + bodySize (take k rs) \<le> cap"
      by (auto simp: Let_def)
    then show ?thesis
      by (intro exI [of _ "Suc k"]) (simp add: bodySize_def)
  qed
qed

lemma fetch_size_error_iff:
  assumes "passesStatusGuards res"
  shows "(\<exists>e. fetchWithGuards toNumber opts res = Inl e) \<longleftrightarrow>
         ((\<exists>n. announcedSize toNumber res = Some n \<and> real (maxBytes opts) < n)
          \<or> maxBytes opts < bodySize (reads res))"
proof -
  have st: "status res \<noteq> 304" "status res \<noteq> 401" "status res \<noteq> 403" "status res \<noteq> 404"
    "\<not> (status res = 429 \<or> (500 \<le> status res \<and> status res \<le> 599))" "\<not> (\<not> ok res \<or> \<not> hasBody res)"
    using assms by (auto simp: passesStatusGuards_def)
  show ?thesis
  proof (cases "\<exists>n. announcedSize toNumber res = Some n \<and> real (maxBytes opts) < n")
    case True
    then show ?thesis
      unfolding fetchWithGuards_def announcedSize_def using st
      by (auto split: option.splits jsnum.splits if_splits)
  next
    case False
    then have hd: "(case header res ''content-length'' of
                 None \<Rightarrow> None
               | Some cl \<Rightarrow>
                   if cl = [] then None
                   else (case toNumber cl of
                           Num n \<Rightarrow> if n > real (maxBytes opts)
                                    then Some (HeaderTooLarge n (maxBytes opts)) else None
                         | NaN \<Rightarrow> None)) = None"
      by (auto simp: announcedSize_def split: option.splits jsnum.splits if_splits)
    have "(\<exists>e. fetchWithGuards toNumber opts res = Inl e)
          \<longleftrightarrow> (\<exists>e. readAll (maxBytes opts) (reads res) [] 0 = Inl e)"
      unfolding fetchWithGuards_def using st
      by (simp only: hd if_False option.case) (auto split: sum.splits prod.splits)
    with False show ?thesis by (auto simp: readAll_error_iff)
  qed
qed

lemma tryUrls_same_error:
  assumes "\<forall>u \<in> set urls. net u = Inr res" and "fetchWithGuards toNumber opts res = Inl e"
  shows "\<exists>e'. tryUrls net toNumber opts urls lastError = Inl e'"
  using assms by (induction urls arbitrary: lastError) auto

lemma tryUrls_same_ok:
  assumes "\<forall>u \<in> set urls. net u = Inr res" and "fetchWithGuards toNumber opts res = Inr out"
    and "urls \<noteq> []"
  shows "tryUrls net toNumber opts urls lastError = Inr out"
  using assms by (cases urls) auto

lemma buildZipballUrls_nonempty: "buildZipballUrls encC encU r \<noteq> []"
  by (simp add: buildZipballUrls_def Let_def)

lemma default_max_bytes: "DEFAULT_MAX_BYTES = 524288000"
  by (simp add: DEFAULT_MAX_BYTES_def)

text \<open>
  Claim C8. \<open>downloadArchive\<close> rejects an archive exactly when its size exceeds the limit
  \<open>maxBytes\<close> (500 * 1024 * 1024 bytes when none is given): for a server that answers
  every candidate URL with the same response, one that passes the status checks, the call
  throws if and only if the announced \<open>content-length\<close> is strictly greater than the
  limit or the bytes streamed are strictly more than the limit. A size equal to the limit is
  accepted, one byte more is rejected.
\<close>

theorem downloadArchive_size_cap:
  assumes "passesStatusGuards res"
    and "\<forall>u \<in> set (buildZipballUrls encC encU r). net u = Inr res"
  shows "((\<exists>e. downloadArchive net toNumber encC encU r opts = Inl e) \<longleftrightarrow>
           ((\<exists>n. announcedSize toNumber res = Some n \<and> real (effectiveMaxBytes opts) < n)
            \<or> effectiveMaxBytes opts < bodySize (reads res)))
         \<and> effectiveMaxBytes (opts\<lparr>dMaxBytes := None\<rparr>) = 500 * 1024 * 1024"
proof -
  let ?o = "\<lparr>token = dToken opts, optEtag = dEtag opts, maxBytes = effectiveMaxBytes opts\<rparr>"
  let ?urls = "buildZipballUrls encC encU r"
  have cap: "maxBytes ?o = effectiveMaxBytes opts" by simp
  have "(\<exists>e. downloadArchive net toNumber encC encU r opts = Inl e) \<longleftrightarrow>
           ((\<exists>n. announcedSize toNumber res = Some n \<and> real (effectiveMaxBytes opts) < n)
            \<or> effectiveMaxBytes opts < bodySize (reads res))"
  proof (cases "fetchWithGuards toNumber ?o res")
    case (Inl e)
    then have "\<exists>e'. downloadArchive net toNumber encC encU r opts = Inl e'"
      unfolding downloadArchive_def using tryUrls_same_error [OF assms(2) Inl] by simp
    moreover have "\<exists>e. fetchWithGuards toNumber ?o res = Inl e" using Inl by blast
    ultimately show ?thesis
      using fetch_size_error_iff [OF assms(1), of toNumber ?o] by (simp only: cap)
  next
    case (Inr out)
    then have "downloadArchive net toNumber encC encU r opts = Inr out"
      unfolding downloadArchive_def
      using tryUrls_same_ok [OF assms(2) Inr buildZipballUrls_nonempty] by simp
    moreover have "\<not> (\<exists>e. fetchWithGuards toNumber ?o res = Inl e)" using Inr by simp
    ultimately show ?thesis
      using fetch_size_error_iff [OF assms(1), of toNumber ?o] by (simp only: cap) simp
  qed
  moreover have "effectiveMaxBytes (opts\<lparr>dMaxBytes := None\<rparr>) = 500 * 1024 * 1024"
    by (simp add: effectiveMaxBytes_def DEFAULT_MAX_BYTES_def)
  ultimately show ?thesis by blast
qed

lemma res3_facts:
  "passesStatusGuards res3" "bodySize (reads res3) = 3" "announcedSize decimalNumber res3 = Some 3"
  by (simp_all add: passesStatusGuards_def bodySize_def announcedSize_def res3_def
       decimalNumber_def is_digit_def code_def digits_value_def)

text \<open>At the limit: three bytes announced and delivered under a limit of three bytes.\<close>

theorem downloadArchive_size_cap_witness:
  "passesStatusGuards res3
   \<and> \<not> (\<exists>e. downloadArchive (\<lambda>u. Inr res3) decimalNumber id id ref0 (optsCap 3) = Inl e)"
  using downloadArchive_size_cap [of res3 id id ref0 "\<lambda>u. Inr res3" decimalNumber "optsCap 3"]
  by (simp add: res3_facts effectiveMaxBytes_def optsCap_def)

text \<open>One byte over: the same three bytes under a limit of two bytes.\<close>

lemma downloadArchive_one_byte_over:
  "\<exists>e. downloadArchive (\<lambda>u. Inr res3) decimalNumber id id ref0 (optsCap 2) = Inl e"
proof -
  have "effectiveMaxBytes (optsCap 2) < bodySize (reads res3)"
    by (simp add: res3_facts effectiveMaxBytes_def optsCap_def)
  moreover have "\<forall>u \<in> set (buildZipballUrls id id ref0). (\<lambda>u. Inr res3) u = (Inr res3 :: error + response)"
    by simp
  ultimately show ?thesis
    using fetch_size_error_iff [OF res3_facts(1), of decimalNumber
        "\<lparr>token = None, optEtag = None, maxBytes = 2\<rparr>"]
      tryUrls_same_error [of "buildZipballUrls id id ref0" "\<lambda>u. Inr res3" res3 decimalNumber
        "\<lparr>token = None, optEtag = None, maxBytes = 2\<rparr>" _ "NetworkError []"]
    by (auto simp: downloadArchive_def effectiveMaxBytes_def optsCap_def)
qed

subsection \<open>The commit SHA of a sync\<close>

text \<open>The two parsers in the words of the claim: the trailing text of the directory name
  after its last dash, and the last path segment of the URL without \<open>.zip\<close>.\<close>

lemma parseShaFromTopLevel_iff:
  "parseShaFromTopLevel tld = Some s \<longleftrightarrow>
     (\<exists>t. tld = Some t \<and> s = after_last CHR ''-'' t \<and> hex_run 7 40 s)"
  by (auto simp: parseShaFromTopLevel_def last_split_on Let_def hex_run_def after_last_def
      split: option.splits)

lemma parseShaFromUrl_iff:
  "parseShaFromUrl u = Some s \<longleftrightarrow> (s = strip_zip (after_last CHR ''/'' u) \<and> hex_run 7 40 s)"
  by (auto simp: parseShaFromUrl_def last_split_on Let_def hex_run_def)


lemma sha_example_dir: "parseShaFromTopLevel (Some ''o-r-0123abc'') = Some ''0123abc''" by code_simp
lemma sha_example_dl0: "parseShaFromUrl (url dl0) = None" unfolding dl0_def by code_simp


subsection \<open>Upserting a document\<close>

lemma insertBlob_documents [simp]:
  "documents (insertBlobOrIgnore now d h c) = documents d"
  "document_seq (insertBlobOrIgnore now d h c) = document_seq d"
  "chunks (insertBlobOrIgnore now d h c) = chunks d"
  by (simp_all add: insertBlobOrIgnore_def Let_def)

lemma insertBlob_present:
  "\<exists>b \<in> set (document_blobs d). blob_hash b = h \<Longrightarrow>
   document_blobs (insertBlobOrIgnore now d h c) = document_blobs d"
  by (simp add: insertBlobOrIgnore_def Let_def)

lemma insertBlob_keeps:
  "b \<in> set (document_blobs d) \<Longrightarrow> b \<in> set (document_blobs (insertBlobOrIgnore now d h c))"
  by (simp add: insertBlobOrIgnore_def Let_def)

text \<open>
  Claim C10. When \<open>upsertDocument\<close> finds a row for \<open>(source_id, path, version_label)\<close>
  whose hash equals the input hash, it returns \<open>changed = false\<close> and still writes the
  row: title, uri and \<open>updated_at\<close> are set and \<open>active\<close> becomes 1; the hash and
  \<open>content_type\<close> columns, the blobs already stored (the referenced one among them) and all
  chunks stay as they were.
\<close>

theorem upsertDocument_same_hash:
  assumes ex: "find (\<lambda>r. source_id r = in_sourceId inp \<and> path r = in_path inp
                        \<and> version_label r = in_versionLabel inp) (documents d) = Some e"
    and same: "hash e = in_hash inp"
  shows "snd (upsertDocument now d inp) = (rowid e, False)
    \<and> documents (fst (upsertDocument now d inp))
        = map (\<lambda>r. if rowid r = rowid e
                    then r\<lparr>doc_title := in_title inp, uri := in_uri inp, updated_at := now,
                           active := 1\<rparr>
                    else r) (documents d)
    \<and> map hash (documents (fst (upsertDocument now d inp))) = map hash (documents d)
    \<and> map content_type (documents (fst (upsertDocument now d inp))) = map content_type (documents d)
    \<and> chunks (fst (upsertDocument now d inp)) = chunks d
    \<and> (\<forall>b \<in> set (document_blobs d). b \<in> set (document_blobs (fst (upsertDocument now d inp))))
    \<and> ((\<exists>b \<in> set (document_blobs d). blob_hash b = hash e)
        \<longrightarrow> document_blobs (fst (upsertDocument now d inp)) = document_blobs d)"
proof -
  let ?d = "insertBlobOrIgnore now d (in_hash inp) (in_content inp)"
  let ?upd = "\<lambda>r. if rowid r = rowid e
                    then r\<lparr>doc_title := in_title inp, uri := in_uri inp, updated_at := now,
                           active := 1\<rparr>
                    else r"
  have eq: "upsertDocument now d inp = (?d\<lparr>documents := map ?upd (documents d)\<rparr>, (rowid e, False))"
    using ex same by (simp add: upsertDocument_def Let_def)
  have h: "map hash (map ?upd (documents d)) = map hash (documents d)"
    by (induction "documents d") auto
  have ct: "map content_type (map ?upd (documents d)) = map content_type (documents d)"
    by (induction "documents d") auto
  show ?thesis
    unfolding eq using h ct same
    by (auto simp: insertBlob_keeps insertBlob_present simp del: map_map)
qed

theorem upsertDocument_same_hash_witness:
  "snd (upsertDocument ''t1'' db1 input1) = (1, False)
   \<and> map active (documents db1) = [0]
   \<and> map active (documents (fst (upsertDocument ''t1'' db1 input1))) = [1]
   \<and> map doc_title (documents (fst (upsertDocument ''t1'' db1 input1))) = [''New'']
   \<and> map content_type (documents (fst (upsertDocument ''t1'' db1 input1))) = [''text/markdown'']
   \<and> chunks (fst (upsertDocument ''t1'' db1 input1)) = [chunk1]
   \<and> document_blobs (fst (upsertDocument ''t1'' db1 input1)) = document_blobs db1"
  using upsertDocument_same_hash [of input1 db1 doc1 "''t1''"]
  by (simp add: db1_def doc1_def input1_def)

subsection \<open>Rounding\<close>


lemma ilog2_le: assumes "0 < q" shows "2 powi (ilog2 q) \<le> q"
proof (cases "1 \<le> q")
  case True
  then have f: "0 < \<lfloor>q\<rfloor>" by simp
  from bitlen_bounds [OF f] have "2 ^ nat (bitlen \<lfloor>q\<rfloor> - 1) \<le> \<lfloor>q\<rfloor>" by simp
  then have "(of_int (2 ^ nat (bitlen \<lfloor>q\<rfloor> - 1)) :: real) \<le> of_int \<lfloor>q\<rfloor>"
    by (simp only: of_int_le_iff)
  also have "\<dots> \<le> q" by simp
  finally have "(2::real) ^ nat (bitlen \<lfloor>q\<rfloor> - 1) \<le> q" by simp
  moreover have "0 \<le> bitlen \<lfloor>q\<rfloor> - 1"
    using bitlen_bounds [OF f] f
    by (metis bitlen_nonneg bitlen_eq_zero_iff diff_ge_0_iff_ge int_one_le_iff_zero_less linorder_not_less order_le_less)
  ultimately show ?thesis
    using True by (simp add: ilog2_def power_int_nonneg_exp)
next
  case False
  define n where "n = \<lceil>1 / q\<rceil> - 1"
  from False assms have "1 < 1 / q" by (simp add: field_simps)
  then have n1: "0 < n" unfolding n_def by (simp add: less_ceiling_iff)
  have "1 / q \<le> of_int (n + 1)" unfolding n_def by (simp add: le_of_int_ceiling)
  also have "n + 1 \<le> 2 ^ nat (bitlen n)"
    using bitlen_bounds [OF n1] by simp
  then have "(of_int (n + 1) :: real) \<le> of_int (2 ^ nat (bitlen n))"
    by (simp only: of_int_le_iff)
  finally have "1 / q \<le> 2 ^ nat (bitlen n)" by simp
  then have "1 / 2 ^ nat (bitlen n) \<le> q"
    using assms by (simp add: field_simps)
  moreover have "2 powi (- bitlen n) = (1::real) / 2 ^ nat (bitlen n)"
    using bitlen_nonneg [of n] by (simp add: power_int_minus_divide power_int_nonneg_exp)
  ultimately show ?thesis
    using False by (simp add: ilog2_def n_def)
qed


lemma ilog2_gt: assumes "0 < q" shows "q < 2 powi (ilog2 q + 1)"
proof (cases "1 \<le> q")
  case True
  then have f: "0 < \<lfloor>q\<rfloor>" by simp
  have b0: "0 \<le> bitlen \<lfloor>q\<rfloor>" by (rule bitlen_nonneg)
  from bitlen_bounds [OF f] have "\<lfloor>q\<rfloor> + 1 \<le> 2 ^ nat (bitlen \<lfloor>q\<rfloor>)" by simp
  then have a: "(of_int (\<lfloor>q\<rfloor> + 1) :: real) \<le> of_int (2 ^ nat (bitlen \<lfloor>q\<rfloor>))"
    by (simp only: of_int_le_iff)
  have "q < of_int (\<lfloor>q\<rfloor> + 1)" using floor_correct [of q] by blast
  then have "q < real_of_int (2 ^ nat (bitlen \<lfloor>q\<rfloor>))" using a by (rule less_le_trans)
  then have "q < 2 ^ nat (bitlen \<lfloor>q\<rfloor>)" by simp
  then show ?thesis
    using True b0 by (simp add: ilog2_def power_int_nonneg_exp)
next
  case False
  define n where "n = \<lceil>1 / q\<rceil> - 1"
  from False assms have "1 < 1 / q" by (simp add: field_simps)
  then have n1: "0 < n" unfolding n_def by (simp add: less_ceiling_iff)
  have b1: "1 \<le> bitlen n"
    using n1 bitlen_nonneg [of n] bitlen_eq_zero_iff [of n] by linarith
  have i: "2 ^ nat (bitlen n - 1) \<le> n"
    using bitlen_bounds [OF n1] by simp
  have "(2::real) ^ nat (bitlen n - 1) = of_int (2 ^ nat (bitlen n - 1))" by simp
  also have "\<dots> \<le> of_int n"
    using i by (simp only: of_int_le_iff)
  also have "of_int n < 1 / q"
    unfolding n_def using ceiling_correct [of "1 / q"] by simp
  finally have "2 ^ nat (bitlen n - 1) < 1 / q" .
  then have "q < 1 / 2 ^ nat (bitlen n - 1)"
    using assms by (simp add: field_simps)
  moreover have "2 powi (- bitlen n + 1) = (1::real) / 2 ^ nat (bitlen n - 1)"
  proof -
    have "- bitlen n + 1 = - (bitlen n - 1)" by simp
    then show ?thesis
      using b1 by (simp only: power_int_minus_divide) (simp add: power_int_nonneg_exp)
  qed
  ultimately show ?thesis
    using False by (simp add: ilog2_def n_def)
qed

lemma ilog2_eqI:
  assumes "2 powi k \<le> q" and "q < 2 powi (k + 1)"
  shows "ilog2 q = k"
proof -
  have "0 < (2::real) powi k" by simp
  with assms(1) have pos: "0 < q" by linarith
  note a = ilog2_le [OF pos] and b = ilog2_gt [OF pos]
  have "\<not> ilog2 q < k"
  proof
    assume "ilog2 q < k"
    then have "ilog2 q + 1 \<le> k" by simp
    then have "(2::real) powi (ilog2 q + 1) \<le> 2 powi k"
      by (simp add: power_int_increasing)
    with b assms(1) show False by simp
  qed
  moreover have "\<not> k < ilog2 q"
  proof
    assume "k < ilog2 q"
    then have "k + 1 \<le> ilog2 q" by simp
    then have "(2::real) powi (k + 1) \<le> 2 powi (ilog2 q)"
      by (simp add: power_int_increasing)
    with a assms(2) show False by simp
  qed
  ultimately show ?thesis by simp
qed

lemma round_even_bounds:
  "of_int (round_even x) \<le> x + 1 / 2" "x - 1 / 2 \<le> of_int (round_even x)"
  "\<lfloor>x\<rfloor> \<le> round_even x"
proof -
  define f where "f = \<lfloor>x\<rfloor>"
  have f: "of_int f \<le> x" "x < of_int f + 1"
    unfolding f_def by linarith+
  have r: "round_even x = (if x - of_int f < 1 / 2 then f
                           else if 1 / 2 < x - of_int f then f + 1
                           else if even f then f else f + 1)"
    by (simp add: round_even_def Let_def f_def)
  show "of_int (round_even x) \<le> x + 1 / 2"
    unfolding r using f by (simp split: if_splits)
  show "x - 1 / 2 \<le> of_int (round_even x)"
    unfolding r using f by (simp split: if_splits)
  show "\<lfloor>x\<rfloor> \<le> round_even x"
    unfolding r f_def [symmetric] by simp
qed

lemma round_even_ge1: "1 \<le> x \<Longrightarrow> 1 \<le> round_even x"
  using round_even_bounds(3) [of x] by (smt (verit) one_le_floor)

lemma round_even_nonneg: "0 \<le> x \<Longrightarrow> 0 \<le> round_even x"
  using round_even_bounds(3) [of x] by (smt (verit) zero_le_floor)


lemma rnd_pos:
  assumes "0 < q"
  shows "rnd q = (let e = max (ilog2 q - 52) (- 1074);
                      v = of_int (round_even (q / 2 powi e)) * 2 powi e
                  in if 2 powi 1024 \<le> v then PInf else Fin v)"
  using assms by (simp add: rnd_def Let_def)

lemma rnd_neg:
  assumes "q < 0"
  shows "rnd q = (let e = max (ilog2 (- q) - 52) (- 1074);
                      v = of_int (round_even (- q / 2 powi e)) * 2 powi e
                  in if 2 powi 1024 \<le> v then NInf else if v = 0 then NZero else Fin (- v))"
  using assms by (simp add: rnd_def Let_def)

lemma rnd_pos_eval:
  assumes "2 powi k \<le> q" and "q < 2 powi (k + 1)"
  shows "rnd q = (let e = max (k - 52) (- 1074);
                      v = of_int (round_even (q / 2 powi e)) * 2 powi e
                  in if 2 powi 1024 \<le> v then PInf else Fin v)"
proof -
  have "0 < (2::real) powi k" by simp
  with assms(1) have pos: "0 < q" by linarith
  show ?thesis
    unfolding rnd_pos [OF pos] ilog2_eqI [OF assms] by (rule refl)
qed

lemma rnd_neg_eval:
  assumes "2 powi k \<le> - q" and "- q < 2 powi (k + 1)"
  shows "rnd q = (let e = max (k - 52) (- 1074);
                      v = of_int (round_even (- q / 2 powi e)) * 2 powi e
                  in if 2 powi 1024 \<le> v then NInf else if v = 0 then NZero else Fin (- v))"
proof -
  have "0 < (2::real) powi k" by simp
  with assms(1) have neg: "q < 0" by linarith
  show ?thesis
    unfolding rnd_neg [OF neg] ilog2_eqI [OF assms] by (rule refl)
qed

lemma on_grid_0 [simp]: "on_grid 0"
  unfolding on_grid_def by (rule exI [of _ 0]) simp

lemma on_grid_minus: "on_grid v \<Longrightarrow> on_grid (- v)"
  unfolding on_grid_def
proof (elim exE)
  fix k :: int
  assume "v = of_int k * 2 powi (- 1074)"
  then have "- v = of_int (- k) * 2 powi (- 1074)" by simp
  then show "\<exists>k::int. - v = of_int k * 2 powi (- 1074)" by blast
qed

lemma on_grid_mult:
  assumes "- 1074 \<le> e"
  shows "on_grid (of_int m * 2 powi e)"
proof -
  have "e = (e + 1074) + (- 1074)" by simp
  then have "(2::real) powi e = 2 powi (e + 1074) * 2 powi (- 1074)"
    by (metis power_int_add zero_neq_numeral)
  also have "(2::real) powi (e + 1074) = of_int (2 ^ nat (e + 1074))"
    using assms by (simp add: power_int_nonneg_exp)
  finally have "of_int m * (2::real) powi e = of_int (m * 2 ^ nat (e + 1074)) * 2 powi (- 1074)"
    by simp
  then show ?thesis unfolding on_grid_def by blast
qed

lemma gridd_rnd: "gridd (rnd q)"
proof -
  consider "q = 0" | "0 < q" | "q < 0" by linarith
  then show ?thesis
  proof cases
    case 1
    then show ?thesis by (simp add: rnd_def gridd_def)
  next
    case 2
    define e where "e = max (ilog2 q - 52) (- 1074)"
    define v where "v = of_int (round_even (q / 2 powi e)) * (2::real) powi e"
    have "- 1074 \<le> e" by (simp add: e_def)
    then have "on_grid v" unfolding v_def by (rule on_grid_mult)
    moreover have "rnd q = (if 2 powi 1024 \<le> v then PInf else Fin v)"
      unfolding rnd_pos [OF 2] Let_def e_def v_def by (rule refl)
    ultimately show ?thesis by (simp add: gridd_def)
  next
    case 3
    define e where "e = max (ilog2 (- q) - 52) (- 1074)"
    define v where "v = of_int (round_even (- q / 2 powi e)) * (2::real) powi e"
    have "- 1074 \<le> e" by (simp add: e_def)
    then have "on_grid v" unfolding v_def by (rule on_grid_mult)
    then have "on_grid (- v)" by (rule on_grid_minus)
    moreover have "rnd q = (if 2 powi 1024 \<le> v then NInf else if v = 0 then NZero else Fin (- v))"
      unfolding rnd_neg [OF 3] Let_def e_def v_def by (rule refl)
    ultimately show ?thesis by (simp add: gridd_def)
  qed
qed

lemma gridd_simps [simp]: "gridd NotANumber" "gridd PInf" "gridd NInf" "gridd NZero" "gridd (Fin 0)"
  by (simp_all add: gridd_def)

lemma gridd_fadd: "gridd (fadd a b)"
  by (simp add: fadd_def gridd_rnd)

lemma gridd_fdiv: "gridd (fdiv a b)"
  by (simp add: fdiv_def gridd_rnd)

lemma exp_le:
  assumes "2 powi (- 1074) \<le> q"
  shows "2 powi (max (ilog2 q - 52) (- 1074)) \<le> q"
proof -
  have "0 < (2::real) powi (- 1074)" by simp
  with assms have pos: "0 < q" by linarith
  have "(2::real) powi (ilog2 q - 52) \<le> 2 powi (ilog2 q)"
    by (simp add: power_int_increasing)
  with ilog2_le [OF pos] have "(2::real) powi (ilog2 q - 52) \<le> q" by linarith
  with assms show ?thesis by (simp add: max_def)
qed

lemma rnd_sign_pos:
  assumes "2 powi (- 1074) \<le> q"
  shows "fsign (rnd q) = 1"
proof -
  have p: "0 < (2::real) powi (- 1074)" by simp
  with assms have pos: "0 < q" by linarith
  define e where "e = max (ilog2 q - 52) (- 1074)"
  define v where "v = of_int (round_even (q / 2 powi e)) * (2::real) powi e"
  have pe: "0 < (2::real) powi e" by simp
  have "2 powi e \<le> q" unfolding e_def by (rule exp_le [OF assms])
  then have "1 \<le> q / 2 powi e" using pe by (simp add: field_simps)
  then have "1 \<le> round_even (q / 2 powi e)" by (rule round_even_ge1)
  then have "(1::real) \<le> of_int (round_even (q / 2 powi e))" by simp
  then have "0 < v" unfolding v_def using pe by (simp add: zero_less_mult_iff)
  moreover have "rnd q = (if 2 powi 1024 \<le> v then PInf else Fin v)"
    unfolding rnd_pos [OF pos] Let_def e_def v_def by (rule refl)
  ultimately show ?thesis by (simp add: fsign_def)
qed

lemma rnd_sign_neg:
  assumes "q \<le> - (2 powi (- 1074))"
  shows "fsign (rnd q) = - 1"
proof -
  have p: "0 < (2::real) powi (- 1074)" by simp
  with assms have neg: "q < 0" by linarith
  from assms have a: "2 powi (- 1074) \<le> - q" by linarith
  define e where "e = max (ilog2 (- q) - 52) (- 1074)"
  define v where "v = of_int (round_even (- q / 2 powi e)) * (2::real) powi e"
  have pe: "0 < (2::real) powi e" by simp
  have "2 powi e \<le> - q" unfolding e_def by (rule exp_le [OF a])
  then have "1 \<le> - q / 2 powi e" using pe by (simp add: field_simps)
  then have "1 \<le> round_even (- q / 2 powi e)" by (rule round_even_ge1)
  then have "(1::real) \<le> of_int (round_even (- q / 2 powi e))" by simp
  then have "0 < v" unfolding v_def using pe by (simp add: zero_less_mult_iff)
  moreover have "rnd q = (if 2 powi 1024 \<le> v then NInf else if v = 0 then NZero else Fin (- v))"
    unfolding rnd_neg [OF neg] Let_def e_def v_def by (rule refl)
  ultimately show ?thesis by (simp add: fsign_def)
qed

lemma rnd_not_NaN [simp]: "rnd q \<noteq> NotANumber"
  by (simp add: rnd_def Let_def)

lemma rnd_bound_pos:
  assumes "0 < q" and "q < 2 powi 1023"
  shows "is_fin (rnd q)"
proof -
  define e where "e = max (ilog2 q - 52) (- 1074)"
  define v where "v = of_int (round_even (q / 2 powi e)) * (2::real) powi e"
  have pe: "0 < (2::real) powi e" by simp
  have "(2::real) powi (ilog2 q - 52) \<le> 2 powi (ilog2 q)"
    by (simp add: power_int_increasing)
  with ilog2_le [OF assms(1)] have e1: "(2::real) powi (ilog2 q - 52) \<le> q" by linarith
  have e2: "(2::real) powi (- 1074) \<le> 1"
    by (simp add: power_int_minus_divide)
  have "(2::real) powi e \<le> max q 1"
    unfolding e_def using e1 e2 by (simp add: max_def)
  moreover have "(1::real) < 2 powi 1023" by simp
  ultimately have pb: "(2::real) powi e < 2 powi 1023"
    using assms(2) by (simp add: max_def split: if_splits)
  have "of_int (round_even (q / 2 powi e)) \<le> q / 2 powi e + 1 / 2"
    by (rule round_even_bounds)
  then have "v \<le> (q / 2 powi e + 1 / 2) * 2 powi e"
    unfolding v_def using pe by (simp add: mult_right_mono)
  also have "\<dots> = q + 2 powi e / 2"
    using pe by (simp add: field_simps)
  also have "\<dots> < 2 powi 1023 + 2 powi 1023 / 2"
    using assms(2) pb by simp
  also have "\<dots> \<le> (2::real) powi 1024" by simp
  finally have "v < 2 powi 1024" .
  moreover have "rnd q = (if 2 powi 1024 \<le> v then PInf else Fin v)"
    unfolding rnd_pos [OF assms(1)] Let_def e_def v_def by (rule refl)
  ultimately show ?thesis by (simp add: is_fin_def)
qed

lemma rnd_neg_flip:
  "q < 0 \<Longrightarrow> rnd q = fneg (rnd (- q)) \<or> (rnd (- q) = Fin 0 \<and> rnd q = NZero)"
  by (simp add: rnd_def Let_def fneg_def)

lemma is_fin_fneg: "is_fin a \<Longrightarrow> is_fin (fneg a)"
  by (cases a) (simp_all add: is_fin_def fneg_def)

lemma rnd_bound:
  assumes "\<bar>q\<bar> < 2 powi 1023"
  shows "is_fin (rnd q)"
proof -
  consider "q = 0" | "0 < q" | "q < 0" by linarith
  then show ?thesis
  proof cases
    case 1
    then show ?thesis by (simp add: rnd_def is_fin_def)
  next
    case 2
    with assms show ?thesis by (simp add: rnd_bound_pos)
  next
    case 3
    with assms have "is_fin (rnd (- q))" by (simp add: rnd_bound_pos)
    with rnd_neg_flip [OF 3] is_fin_fneg [of "rnd (- q)"] show ?thesis
      by (auto simp: is_fin_def)
  qed
qed


lemma on_grid_diff: "on_grid x \<Longrightarrow> on_grid y \<Longrightarrow> on_grid (x - y)"
  unfolding on_grid_def
proof (elim exE)
  fix k l :: int
  assume "x = of_int k * 2 powi (- 1074)" "y = of_int l * 2 powi (- 1074)"
  then have "x - y = of_int (k - l) * 2 powi (- 1074)" by (simp add: algebra_simps)
  then show "\<exists>m::int. x - y = of_int m * 2 powi (- 1074)" by blast
qed

lemma rnd_sign_grid:
  assumes "on_grid d"
  shows "fsign (rnd d) = (if d < 0 then - 1 else if 0 < d then 1 else 0)"
proof -
  from assms obtain k :: int where d: "d = of_int k * 2 powi (- 1074)"
    unfolding on_grid_def by blast
  have u: "0 < (2::real) powi (- 1074)" by simp
  consider "k = 0" | "1 \<le> k" | "k \<le> - 1" by linarith
  then show ?thesis
  proof cases
    case 1
    then show ?thesis by (simp add: d rnd_def fsign_def)
  next
    case 2
    then have "(1::real) \<le> of_int k" by simp
    then have "1 * 2 powi (- 1074) \<le> d"
      unfolding d using u by (simp only: mult_right_mono less_imp_le)
    then have ge: "2 powi (- 1074) \<le> d" by simp
    with u have "0 < d" by linarith
    with rnd_sign_pos [OF ge] show ?thesis by simp
  next
    case 3
    then have "of_int k \<le> (- 1::real)" by (metis of_int_le_iff of_int_minus of_int_1)
    then have "d \<le> (- 1) * 2 powi (- 1074)"
      unfolding d using u by (simp only: mult_right_mono less_imp_le)
    then have le: "d \<le> - (2 powi (- 1074))" by simp
    with u have "d < 0" by linarith
    with rnd_sign_neg [OF le] show ?thesis by simp
  qed
qed

lemma fsub_finite:
  assumes "is_fin a" and "is_fin b"
  shows "fsub b a = NZero \<and> fin_val b - fin_val a = 0 \<or> fsub b a = rnd (fin_val b - fin_val a)"
  using assms
  by (cases a; cases b) (simp_all add: is_fin_def fsub_def fadd_def fneg_def fin_val_def)

lemma fsub_sign:
  assumes "a \<noteq> NotANumber" and "b \<noteq> NotANumber" and "gridd a" and "gridd b"
  shows "(fsign (fsub b a) \<le> 0) = fle b a"
proof (cases "is_fin a \<and> is_fin b")
  case True
  have g: "on_grid (fin_val b - fin_val a)"
  proof (rule on_grid_diff)
    show "on_grid (fin_val b)" using assms(4) by (cases b) (simp_all add: gridd_def fin_val_def)
    show "on_grid (fin_val a)" using assms(3) by (cases a) (simp_all add: gridd_def fin_val_def)
  qed
  have lv: "level a = 0" "level b = 0"
    using True by (cases a; simp add: is_fin_def level_def; cases b; simp add: is_fin_def level_def)+
  have "fsign (fsub b a) = (if fin_val b - fin_val a < 0 then - 1
                             else if 0 < fin_val b - fin_val a then 1 else 0)"
    using fsub_finite [of a b] True rnd_sign_grid [OF g]
    by (auto simp: fsign_def)
  then show ?thesis
    using assms(1,2) lv by (simp add: fle_def)
next
  case False
  with assms(1,2) show ?thesis
    by (cases a; cases b)
       (simp_all add: is_fin_def fsub_def fadd_def fneg_def fsign_def fle_def level_def fin_val_def)
qed

lemma fle_total: "a \<noteq> NotANumber \<Longrightarrow> b \<noteq> NotANumber \<Longrightarrow> fle a b \<or> fle b a"
  by (auto simp: fle_def)

lemma fle_trans: "fle a b \<Longrightarrow> fle b c \<Longrightarrow> fle a c"
  by (auto simp: fle_def)

lemma fdiv_finite:
  assumes "finite_double w" and "2 \<le> n"
  shows "is_fin (fdiv w (Fin (of_nat n)))"
proof (cases w)
  case (Fin q)
  have n: "(2::real) \<le> of_nat n" using assms(2) by (metis of_nat_le_iff of_nat_numeral)
  show ?thesis
  proof (cases "q = 0")
    case True
    with Fin n show ?thesis
      by (simp add: fdiv_def is_inf_def is_zero_def is_neg_def is_fin_def)
  next
    case False
    from Fin assms(1) have b: "\<bar>q\<bar> < 2 powi 1024" by (simp add: finite_double_def)
    have "\<bar>q / of_nat n\<bar> = \<bar>q\<bar> / of_nat n" by simp
    also have "\<dots> \<le> \<bar>q\<bar> / 2"
      by (rule divide_left_mono) (use n in simp_all)
    also have "\<dots> < 2 powi 1024 / 2" using b by simp
    also have "\<dots> = (2::real) powi 1023" by simp
    finally have "is_fin (rnd (q / of_nat n))" by (rule rnd_bound)
    with Fin False n show ?thesis
      by (simp add: fdiv_def is_inf_def is_zero_def fin_val_def)
  qed
qed (use assms in \<open>simp_all add: finite_double_def fdiv_def is_inf_def is_zero_def is_neg_def is_fin_def\<close>)

lemma fadd_not_NaN: "a \<noteq> NotANumber \<Longrightarrow> is_fin b \<Longrightarrow> fadd a b \<noteq> NotANumber"
  by (cases b) (simp_all add: fadd_def is_fin_def)

subsection \<open>Active documents after a sync\<close>

lemma fold_max_ge: "seq \<le> fold max ids seq \<and> (\<forall>i \<in> set ids. i \<le> fold max ids (seq::nat))"
proof (induction ids arbitrary: seq)
  case Nil
  show ?case by simp
next
  case (Cons a ids)
  from Cons [of "max a seq"] show ?case by auto
qed

lemma next_id_fresh: "next_id seq ids \<notin> set ids"
  using fold_max_ge [of seq ids] by (auto simp: next_id_def)

lemma find_key_None:
  "find (\<lambda>r. source_id r = a \<and> path r = b \<and> version_label r = c) rs = None
   \<longleftrightarrow> (a, b, c) \<notin> set (map doc_key rs)"
  by (auto simp: find_None_iff doc_key_def)

lemma map_key_update:
  "map doc_key (map (\<lambda>r. if rowid r = i then f r else r) rs) = map doc_key rs"
  if "\<And>r. doc_key (f r) = doc_key r"
  using that by (induction rs) auto

lemma map_rowid_update:
  "map rowid (map (\<lambda>r. if rowid r = i then f r else r) rs) = map rowid rs"
  if "\<And>r. rowid (f r) = rowid r"
  using that by (induction rs) auto

lemma distinct_rowid_unique:
  "distinct (map rowid rs) \<Longrightarrow> r \<in> set rs \<Longrightarrow> e \<in> set rs \<Longrightarrow> rowid r = rowid e \<Longrightarrow> r = e"
  by (meson distinct_map inj_onD)

lemma distinct_key_unique:
  "distinct (map doc_key rs) \<Longrightarrow> r \<in> set rs \<Longrightarrow> e \<in> set rs \<Longrightarrow> doc_key r = doc_key e \<Longrightarrow> r = e"
  by (meson distinct_map inj_onD)

lemma upsert_kept_active:
  assumes "kept_active (documents d) sid vl P"
    and "in_sourceId inp = sid" and "in_versionLabel inp = vl"
  shows "kept_active (documents (fst (upsertDocument now d inp))) sid vl (insert (in_path inp) P)"
proof -
  let ?d = "insertBlobOrIgnore now d (in_hash inp) (in_content inp)"
  let ?k = "(in_sourceId inp, in_path inp, in_versionLabel inp)"
  let ?P = "\<lambda>r. source_id r = in_sourceId inp \<and> path r = in_path inp
                        \<and> version_label r = in_versionLabel inp"
  have ok: "distinct (map rowid (documents d))" "distinct (map doc_key (documents d))"
    and act: "\<And>r. r \<in> set (documents d) \<Longrightarrow> source_id r = sid \<Longrightarrow> version_label r = vl
                \<Longrightarrow> path r \<in> P \<Longrightarrow> active r = 1"
    using assms(1) by (auto simp: kept_active_def documents_ok_def)
  show ?thesis
  proof (cases "find ?P (documents d)")
    case None
    let ?i = "next_id (document_seq d) (map rowid (documents d))"
    let ?new = "\<lparr>rowid = ?i, source_id = in_sourceId inp, path = in_path inp,
                      uri = in_uri inp, doc_title = in_title inp, hash = in_hash inp,
                      content_type = in_contentType inp, version_label = in_versionLabel inp,
                      created_at = now, updated_at = now, active = 1\<rparr>"
    have docs: "documents (fst (upsertDocument now d inp)) = documents d @ [?new]"
      using None by (simp add: upsertDocument_def Let_def)
    have nk: "?k \<notin> set (map doc_key (documents d))"
      using None unfolding find_key_None .
    moreover have "?i \<notin> set (map rowid (documents d))" by (rule next_id_fresh)
    ultimately have "documents_ok (documents d @ [?new])"
      using ok by (simp add: documents_ok_def doc_key_def)
    moreover have "path r \<noteq> in_path inp"
      if "r \<in> set (documents d)" "source_id r = sid" "version_label r = vl" for r
      using nk that assms(2,3) by (auto simp: doc_key_def image_iff)
    ultimately show ?thesis
      unfolding docs kept_active_def using act assms(2,3) by auto
  next
    case (Some e)
    then have e: "e \<in> set (documents d)" "?P e"
      by (auto simp: find_Some_iff)
    obtain f where docs: "documents (fst (upsertDocument now d inp))
        = map (\<lambda>r. if rowid r = rowid e then f r else r) (documents d)"
      and f: "\<And>r. doc_key (f r) = doc_key r" "\<And>r. rowid (f r) = rowid r" "\<And>r. active (f r) = 1"
    proof (cases "hash e = in_hash inp")
      case True
      show ?thesis
        by (rule that [of "\<lambda>r. r\<lparr>doc_title := in_title inp, uri := in_uri inp, updated_at := now,
                           active := 1\<rparr>"])
           (use Some True in \<open>simp_all add: upsertDocument_def Let_def doc_key_def\<close>)
    next
      case False
      show ?thesis
        by (rule that [of "\<lambda>r. r\<lparr>doc_title := in_title inp, uri := in_uri inp, hash := in_hash inp,
                            content_type := in_contentType inp, updated_at := now, active := 1\<rparr>"])
           (use Some False in \<open>simp_all add: upsertDocument_def Let_def doc_key_def\<close>)
    qed
    have okk: "documents_ok (map (\<lambda>r. if rowid r = rowid e then f r else r) (documents d))"
      using ok unfolding documents_ok_def
      by (simp only: map_key_update [OF f(1)] map_rowid_update [OF f(2)])
    have "active r' = 1"
      if r': "r' \<in> set (map (\<lambda>r. if rowid r = rowid e then f r else r) (documents d))"
        and k: "source_id r' = sid" "version_label r' = vl" "path r' \<in> insert (in_path inp) P"
      for r'
    proof -
      from r' obtain r where r: "r \<in> set (documents d)"
        "r' = (if rowid r = rowid e then f r else r)" by auto
      show ?thesis
      proof (cases "rowid r = rowid e")
        case True
        with r f(3) show ?thesis by simp
      next
        case False
        with r have same: "r' = r" by simp
        have "doc_key r \<noteq> doc_key e"
          using distinct_key_unique [OF ok(2) r(1) e(1)] False by auto
        with e(2) k same assms(2,3) have "path r \<in> P"
          by (auto simp: doc_key_def)
        with act [OF r(1)] k same show ?thesis by simp
      qed
    qed
    with okk show ?thesis unfolding docs kept_active_def by blast
  qed
qed

lemma kept_active_mono: "kept_active rs sid vl P \<Longrightarrow> Q \<subseteq> P \<Longrightarrow> kept_active rs sid vl Q"
  by (auto simp: kept_active_def)

lemma upsert_changed_iff:
  assumes "documents_ok (documents d)"
  shows "\<not> snd (snd (upsertDocument now d inp))
         \<longleftrightarrow> (\<exists>row \<in> set (documents d).
                doc_key row = (in_sourceId inp, in_path inp, in_versionLabel inp)
                \<and> hash row = in_hash inp)"
proof -
  let ?P = "\<lambda>r. source_id r = in_sourceId inp \<and> path r = in_path inp
                        \<and> version_label r = in_versionLabel inp"
  have dk: "distinct (map doc_key (documents d))"
    using assms by (simp add: documents_ok_def)
  show ?thesis
  proof (cases "find ?P (documents d)")
    case None
    then have "(in_sourceId inp, in_path inp, in_versionLabel inp) \<notin> set (map doc_key (documents d))"
      unfolding find_key_None .
    then have "\<not> (\<exists>row \<in> set (documents d).
                doc_key row = (in_sourceId inp, in_path inp, in_versionLabel inp)
                \<and> hash row = in_hash inp)"
      by force
    moreover have "snd (snd (upsertDocument now d inp))"
      using None by (simp add: upsertDocument_def Let_def)
    ultimately show ?thesis by blast
  next
    case (Some e)
    then have e: "e \<in> set (documents d)" "doc_key e = (in_sourceId inp, in_path inp, in_versionLabel inp)"
      by (auto simp: find_Some_iff doc_key_def)
    have uniq: "row = e" if "row \<in> set (documents d)"
      "doc_key row = (in_sourceId inp, in_path inp, in_versionLabel inp)" for row
      using distinct_key_unique [OF dk that(1) e(1)] that(2) e(2) by simp
    have "snd (snd (upsertDocument now d inp)) \<longleftrightarrow> hash e \<noteq> in_hash inp"
      using Some by (simp add: upsertDocument_def Let_def)
    moreover have "(\<exists>row \<in> set (documents d).
                doc_key row = (in_sourceId inp, in_path inp, in_versionLabel inp)
                \<and> hash row = in_hash inp) \<longleftrightarrow> hash e = in_hash inp"
      using e uniq by blast
    ultimately show ?thesis by blast
  qed
qed

lemma upsert_rows:
  assumes "distinct (map rowid (documents d))"
  shows "\<exists>new. doc_key new = (in_sourceId inp, in_path inp, in_versionLabel inp)
           \<and> new \<in> set (documents (fst (upsertDocument now d inp)))
           \<and> (\<forall>k. k \<noteq> (in_sourceId inp, in_path inp, in_versionLabel inp) \<longrightarrow>
                 {r \<in> set (documents (fst (upsertDocument now d inp))). doc_key r = k}
                   = {r \<in> set (documents d). doc_key r = k})
           \<and> doc_key ` set (documents (fst (upsertDocument now d inp)))
                = insert (in_sourceId inp, in_path inp, in_versionLabel inp)
                    (doc_key ` set (documents d))"
proof -
  let ?key = "(in_sourceId inp, in_path inp, in_versionLabel inp)"
  let ?P = "\<lambda>r. source_id r = in_sourceId inp \<and> path r = in_path inp
                        \<and> version_label r = in_versionLabel inp"
  show ?thesis
  proof (cases "find ?P (documents d)")
    case None
    let ?i = "next_id (document_seq d) (map rowid (documents d))"
    let ?new = "\<lparr>rowid = ?i, source_id = in_sourceId inp, path = in_path inp,
                      uri = in_uri inp, doc_title = in_title inp, hash = in_hash inp,
                      content_type = in_contentType inp, version_label = in_versionLabel inp,
                      created_at = now, updated_at = now, active = 1\<rparr>"
    have docs: "documents (fst (upsertDocument now d inp)) = documents d @ [?new]"
      using None by (simp add: upsertDocument_def Let_def)
    have k: "doc_key ?new = ?key" by (simp add: doc_key_def)
    show ?thesis
      unfolding docs
      by (rule exI [of _ ?new]) (use k in auto)
  next
    case (Some e)
    then have e: "e \<in> set (documents d)" "doc_key e = ?key"
      by (auto simp: find_Some_iff doc_key_def)
    obtain f where docs: "documents (fst (upsertDocument now d inp))
        = map (\<lambda>r. if rowid r = rowid e then f r else r) (documents d)"
      and f: "\<And>r. doc_key (f r) = doc_key r"
    proof (cases "hash e = in_hash inp")
      case True
      show ?thesis
        by (rule that [of "\<lambda>r. r\<lparr>doc_title := in_title inp, uri := in_uri inp, updated_at := now,
                           active := 1\<rparr>"])
           (use Some True in \<open>simp_all add: upsertDocument_def Let_def doc_key_def\<close>)
    next
      case False
      show ?thesis
        by (rule that [of "\<lambda>r. r\<lparr>doc_title := in_title inp, uri := in_uri inp, hash := in_hash inp,
                            content_type := in_contentType inp, updated_at := now, active := 1\<rparr>"])
           (use Some False in \<open>simp_all add: upsertDocument_def Let_def doc_key_def\<close>)
    qed
    let ?g = "\<lambda>r. if rowid r = rowid e then f r else r"
    have same: "?g r = r" if "r \<in> set (documents d)" "doc_key r \<noteq> ?key" for r
      using distinct_rowid_unique [OF assms that(1) e(1)] that(2) e(2) by auto
    have gk: "doc_key (?g r) = doc_key r" for r
      by (simp add: f)
    have a: "f e \<in> set (map ?g (documents d))"
      using e(1) by force
    have b: "{r \<in> set (map ?g (documents d)). doc_key r = k} = {r \<in> set (documents d). doc_key r = k}"
      if "k \<noteq> ?key" for k
    proof (intro set_eqI iffI)
      fix x
      assume "x \<in> {r \<in> set (map ?g (documents d)). doc_key r = k}"
      then obtain r where r: "r \<in> set (documents d)" "x = ?g r" "doc_key x = k" by auto
      with gk [of r] have "doc_key r = k" by simp
      with same [OF r(1)] that r show "x \<in> {r \<in> set (documents d). doc_key r = k}" by simp
    next
      fix x
      assume "x \<in> {r \<in> set (documents d). doc_key r = k}"
      then have x: "x \<in> set (documents d)" "doc_key x = k" by auto
      with same [OF x(1)] that have "?g x = x" by simp
      with x have "x \<in> set (map ?g (documents d))" by force
      with x show "x \<in> {r \<in> set (map ?g (documents d)). doc_key r = k}" by simp
    qed
    have c: "doc_key ` set (map ?g (documents d)) = insert ?key (doc_key ` set (documents d))"
    proof -
      have "doc_key ` set (map ?g (documents d)) = set (map doc_key (map ?g (documents d)))"
        by (simp only: set_map)
      also have "\<dots> = set (map doc_key (documents d))"
        by (simp only: map_key_update [OF f])
      also have "\<dots> = insert ?key (doc_key ` set (documents d))"
        using e by force
      finally show ?thesis .
    qed
    show ?thesis
      unfolding docs
      by (rule exI [of _ "f e"]) (use a b c f e in simp)
  qed
qed

lemma deleteChunks_documents:
  "deleteChunksForDocument mv d i = Inr d' \<Longrightarrow> documents d' = documents d"
  by (auto simp: deleteChunksForDocument_def Let_def split: option.splits if_splits)

lemma insertChunkRows_documents:
  "documents (fst (insertChunkRows sh now i p u t n drafts d ids)) = documents d"
  by (induction drafts arbitrary: d ids n) (simp_all add: Let_def)

lemma insertChunks_documents [simp]:
  "documents (fst (insertChunks sh now d i p u t drafts)) = documents d"
  by (simp add: insertChunks_def insertChunkRows_documents)

lemma keepPathsOf_Cons:
  "keepPathsOf (r # rs) = (if truthy (keepPath r) then the (keepPath r) # keepPathsOf rs else keepPathsOf rs)"
  by (auto simp: keepPathsOf_def List.map_filter_simps truthy_def split: option.splits)

lemma keepPathsOf_Nil [simp]: "keepPathsOf [] = []"
  by (simp add: keepPathsOf_def List.map_filter_simps)

text \<open>What the worker does to the documents and which path it keeps.\<close>

lemma processFile_cases:
  assumes "processFile env own rep sid vl docsOnly d file = Inr (d', fr)"
  defines "inp \<equiv> \<lparr>in_sourceId = sid, in_path = relPath file,
                 in_uri = buildGithubUri own rep vl (relPath file), in_title = fileTitle file,
                 in_hash = fileHash file,
                 in_contentType = (if isDocFile (relPath file) then ''text/markdown'' else ''text/plain''),
                 in_versionLabel = vl, in_content = fileContent file\<rparr>"
  shows "((docsOnly \<or> isDocFile (relPath file)) \<and> \<not> containsCodeSnippet (fileContent file)
           \<and> documents d' = documents d \<and> keepPath fr = None)
       \<or> (\<not> ((docsOnly \<or> isDocFile (relPath file)) \<and> \<not> containsCodeSnippet (fileContent file))
           \<and> documents d' = documents (fst (upsertDocument (e_now env) d inp))
           \<and> keepPath fr
               = (if \<not> snd (snd (upsertDocument (e_now env) d inp))
                     \<or> e_buildDocumentChunks env (fileContent file) (relPath file) (fileTitle file)
                          (buildPrefix own rep vl) \<noteq> []
                  then Some (relPath file) else None))"
proof (cases "(docsOnly \<or> isDocFile (relPath file)) \<and> \<not> containsCodeSnippet (fileContent file)")
  case True
  with assms(1) have "d' = d" "keepPath fr = None"
    by (auto simp: processFile_def Let_def)
  with True show ?thesis by simp
next
  case False
  obtain d1 docId changed where up: "upsertDocument (e_now env) d inp = (d1, docId, changed)"
    by (cases "upsertDocument (e_now env) d inp") auto
  have "documents d' = documents d1
        \<and> keepPath fr = (if \<not> changed
                     \<or> e_buildDocumentChunks env (fileContent file) (relPath file) (fileTitle file)
                          (buildPrefix own rep vl) \<noteq> []
                  then Some (relPath file) else None)"
  proof (cases changed)
    case f: False
    with assms(1) False up show ?thesis
      unfolding processFile_def Let_def inp_def [symmetric]
      by (auto simp: Let_def)
  next
    case t: True
    from assms(1) False up t obtain d2 where
      del: "deleteChunksForDocument (e_maxVariables env) d1 docId = Inr d2"
      unfolding processFile_def Let_def inp_def [symmetric]
      by (auto simp: Let_def split: sum.splits)
    note dd = deleteChunks_documents [OF del]
    from assms(1) False up t del dd show ?thesis
      unfolding processFile_def Let_def inp_def [symmetric]
      by (auto simp: Let_def split: if_splits)
  qed
  with False up show ?thesis by simp
qed

lemma run_inv_kept: "run_inv rows0 rs sid vl P K \<Longrightarrow> kept_active rs sid vl K"
  by (simp add: run_inv_def)

lemma processFile_inv:
  assumes inv: "run_inv rows0 (documents d) sid vl P K"
    and fresh: "relPath file \<notin> P"
    and pf: "processFile env own rep sid vl docsOnly d file = Inr (d', fr)"
  shows "run_inv rows0 (documents d') sid vl (insert (relPath file) P) (K \<union> set (keepPathsOf [fr]))
         \<and> set (keepPathsOf [fr])
             = (if keptFile env own rep sid vl docsOnly rows0 file then {relPath file} else {})"
proof -
  define inp where "inp = \<lparr>in_sourceId = sid, in_path = relPath file,
                 in_uri = buildGithubUri own rep vl (relPath file), in_title = fileTitle file,
                 in_hash = fileHash file,
                 in_contentType = (if isDocFile (relPath file) then ''text/markdown'' else ''text/plain''),
                 in_versionLabel = vl, in_content = fileContent file\<rparr>"
  define skip where "skip = ((docsOnly \<or> isDocFile (relPath file)) \<and> \<not> containsCodeSnippet (fileContent file))"
  define drafts where "drafts = e_buildDocumentChunks env (fileContent file) (relPath file)
                          (fileTitle file) (buildPrefix own rep vl)"
  have ka: "kept_active (documents d) sid vl K"
    and pres: "\<And>p. p \<in> K \<Longrightarrow> (sid, p, vl) \<in> doc_key ` set (documents d)"
    and frame: "\<And>p. p \<notin> P \<Longrightarrow> {r \<in> set (documents d). doc_key r = (sid, p, vl)}
                           = {r \<in> set rows0. doc_key r = (sid, p, vl)}"
    using inv by (auto simp: run_inv_def)
  have ok: "documents_ok (documents d)" using ka by (simp add: kept_active_def)
  have old: "(\<exists>row \<in> set (documents d). doc_key row = (sid, relPath file, vl) \<and> hash row = fileHash file)
        \<longleftrightarrow> list_ex (\<lambda>row. source_id row = sid \<and> path row = relPath file
                          \<and> version_label row = vl \<and> hash row = fileHash file) rows0"
  proof -
    have "(\<exists>row \<in> set (documents d). doc_key row = (sid, relPath file, vl) \<and> hash row = fileHash file)
          \<longleftrightarrow> (\<exists>row \<in> {r \<in> set (documents d). doc_key r = (sid, relPath file, vl)}. hash row = fileHash file)"
      by blast
    also have "\<dots> \<longleftrightarrow> (\<exists>row \<in> {r \<in> set rows0. doc_key r = (sid, relPath file, vl)}. hash row = fileHash file)"
      by (simp only: frame [OF fresh])
    also have "\<dots> \<longleftrightarrow> list_ex (\<lambda>row. source_id row = sid \<and> path row = relPath file
                          \<and> version_label row = vl \<and> hash row = fileHash file) rows0"
      by (auto simp: list_ex_iff doc_key_def)
    finally show ?thesis .
  qed
  have kf: "keptFile env own rep sid vl docsOnly rows0 file
        \<longleftrightarrow> relPath file \<noteq> [] \<and> \<not> skip
            \<and> ((\<exists>row \<in> set (documents d). doc_key row = (sid, relPath file, vl) \<and> hash row = fileHash file)
                \<or> drafts \<noteq> [])"
    unfolding keptFile_def skip_def drafts_def old by (rule refl)
  have c: "(skip \<and> documents d' = documents d \<and> keepPath fr = None)
       \<or> (\<not> skip
           \<and> documents d' = documents (fst (upsertDocument (e_now env) d inp))
           \<and> keepPath fr
               = (if \<not> snd (snd (upsertDocument (e_now env) d inp)) \<or> drafts \<noteq> []
                  then Some (relPath file) else None))"
    using processFile_cases [OF pf] unfolding skip_def inp_def drafts_def by blast
  show ?thesis
  proof (cases skip)
    case True
    with c have same: "documents d' = documents d" "keepPath fr = None" by auto
    have "run_inv rows0 (documents d) sid vl (insert (relPath file) P) K"
      using inv by (auto simp: run_inv_def)
    with same True kf show ?thesis
      by (simp add: keepPathsOf_Cons truthy_def)
  next
    case False
    let ?u = "upsertDocument (e_now env) d inp"
    from False c have docs: "documents d' = documents (fst ?u)"
      and kp: "keepPath fr = (if \<not> snd (snd ?u) \<or> drafts \<noteq> [] then Some (relPath file) else None)"
      by auto
    have key: "(in_sourceId inp, in_path inp, in_versionLabel inp) = (sid, relPath file, vl)"
      by (simp add: inp_def)
    have ch: "\<not> snd (snd ?u)
        \<longleftrightarrow> (\<exists>row \<in> set (documents d). doc_key row = (sid, relPath file, vl) \<and> hash row = fileHash file)"
      using upsert_changed_iff [OF ok, of "e_now env" inp] by (simp add: inp_def)
    have kset: "set (keepPathsOf [fr])
             = (if keptFile env own rep sid vl docsOnly rows0 file then {relPath file} else {})"
      unfolding kf using False kp ch
      by (auto simp: keepPathsOf_Cons truthy_def)
    have k1: "kept_active (documents d') sid vl (insert (relPath file) K)"
      using upsert_kept_active [OF ka, of inp "e_now env"] docs by (simp add: inp_def)
    have k2: "kept_active (documents d') sid vl (K \<union> set (keepPathsOf [fr]))"
      by (rule kept_active_mono [OF k1]) (auto simp: kset)
    have dr: "distinct (map rowid (documents d))"
      using ok by (simp add: documents_ok_def)
    from upsert_rows [OF dr, of inp "e_now env"]
    have fr2: "\<And>k. k \<noteq> (sid, relPath file, vl) \<Longrightarrow>
                 {r \<in> set (documents d'). doc_key r = k} = {r \<in> set (documents d). doc_key r = k}"
      and keys: "doc_key ` set (documents d') = insert (sid, relPath file, vl) (doc_key ` set (documents d))"
      unfolding key docs by blast+
    have p2: "(sid, p, vl) \<in> doc_key ` set (documents d')" if "p \<in> K \<union> set (keepPathsOf [fr])" for p
      using that pres [of p] unfolding keys kset by (auto split: if_splits)
    have f2: "{r \<in> set (documents d'). doc_key r = (sid, p, vl)}
                           = {r \<in> set rows0. doc_key r = (sid, p, vl)}"
      if "p \<notin> insert (relPath file) P" for p
    proof -
      from that have "(sid, p, vl) \<noteq> (sid, relPath file, vl)" "p \<notin> P" by auto
      from fr2 [OF this(1)] frame [OF this(2)] show ?thesis by simp
    qed
    have "run_inv rows0 (documents d') sid vl (insert (relPath file) P) (K \<union> set (keepPathsOf [fr]))"
      unfolding run_inv_def using k2 p2 f2 by blast
    with kset show ?thesis by blast
  qed
qed

lemma processFiles_inv:
  assumes "run_inv rows0 (documents d) sid vl P K"
    and "distinct (map relPath files)"
    and "relPath ` set files \<inter> P = {}"
    and "processFiles env own rep sid vl docsOnly d files = Inr (d', rs)"
  shows "run_inv rows0 (documents d') sid vl (P \<union> relPath ` set files) (K \<union> set (keepPathsOf rs))
         \<and> set (keepPathsOf rs)
             = relPath ` {f \<in> set files. keptFile env own rep sid vl docsOnly rows0 f}"
  using assms
proof (induction files arbitrary: d d' rs P K)
  case Nil
  then show ?case by simp
next
  case (Cons f fs)
  from Cons.prems(4) obtain d1 r where pf: "processFile env own rep sid vl docsOnly d f = Inr (d1, r)"
    by (auto split: sum.splits)
  with Cons.prems(4) obtain rs' where pfs: "processFiles env own rep sid vl docsOnly d1 fs = Inr (d', rs')"
    and rs: "rs = r # rs'"
    by (auto split: sum.splits)
  have fresh: "relPath f \<notin> P" using Cons.prems(3) by auto
  note a = processFile_inv [OF Cons.prems(1) fresh pf]
  have d2: "distinct (map relPath fs)" and nf: "relPath f \<notin> relPath ` set fs"
    using Cons.prems(2) by auto
  have disj: "relPath ` set fs \<inter> insert (relPath f) P = {}"
    using Cons.prems(3) nf by auto
  note b = Cons.IH [OF a [THEN conjunct1] d2 disj pfs]
  have ks: "set (keepPathsOf rs) = set (keepPathsOf [r]) \<union> set (keepPathsOf rs')"
    unfolding rs by (simp add: keepPathsOf_Cons)
  have e1: "insert (relPath f) P \<union> relPath ` set fs = P \<union> relPath ` set (f # fs)"
    by auto
  have e2: "K \<union> set (keepPathsOf [r]) \<union> set (keepPathsOf rs') = K \<union> set (keepPathsOf rs)"
    unfolding ks by auto
  have inv: "run_inv rows0 (documents d') sid vl (P \<union> relPath ` set (f # fs)) (K \<union> set (keepPathsOf rs))"
    using b [THEN conjunct1] unfolding e1 e2 .
  have "set (keepPathsOf rs)
          = relPath ` {x \<in> set (f # fs). keptFile env own rep sid vl docsOnly rows0 x}"
    unfolding ks a [THEN conjunct2] b [THEN conjunct2] by auto
  with inv show ?case by blast
qed

lemma deactivate_rows:
  "deactivateMissingDocuments mv d sid vl keep = Inr (d', n) \<Longrightarrow>
   documents d' = map (\<lambda>r. if source_id r = sid \<and> version_label r = vl \<and> path r \<notin> set keep
                            then r\<lparr>active := 0\<rparr> else r) (documents d)"
  by (cases keep) (auto simp: deactivateMissingDocuments_def Let_def split: if_splits)

lemma ingestFiles_active:
  assumes ok: "documents_ok (documents d)"
    and dist: "distinct (map relPath files)"
    and run: "ingestFiles env own rep sid vl docsOnly d files = Inr (d', rs)"
  shows "(\<forall>row \<in> set (documents d').
           source_id row = sid \<and> version_label row = vl
           \<longrightarrow> active row = (if \<exists>f \<in> set files. relPath f = path row
                                      \<and> keptFile env own rep sid vl docsOnly (documents d) f
                               then 1 else 0))
       \<and> (\<forall>f \<in> set files. keptFile env own rep sid vl docsOnly (documents d) f
             \<longrightarrow> (\<exists>row \<in> set (documents d').
                    source_id row = sid \<and> path row = relPath f \<and> version_label row = vl))"
proof -
  from run obtain d1 where pfs: "processFiles env own rep sid vl docsOnly d files = Inr (d1, rs)"
    by (auto simp: ingestFiles_def split: sum.splits)
  with run obtain n where
    de: "deactivateMissingDocuments (e_maxVariables env) d1 sid vl (keepPathsOf rs) = Inr (d', n)"
    by (auto simp: ingestFiles_def split: sum.splits)
  have "run_inv (documents d) (documents d) sid vl {} {}"
    using ok by (simp add: run_inv_def kept_active_def)
  then have both: "run_inv (documents d) (documents d1) sid vl ({} \<union> relPath ` set files)
                  ({} \<union> set (keepPathsOf rs))
         \<and> set (keepPathsOf rs)
             = relPath ` {f \<in> set files. keptFile env own rep sid vl docsOnly (documents d) f}"
    by (rule processFiles_inv [OF _ dist _ pfs]) simp
  have inv: "run_inv (documents d) (documents d1) sid vl (relPath ` set files) (set (keepPathsOf rs))"
    using both [THEN conjunct1] by (simp only: Un_empty_left)
  have ks: "set (keepPathsOf rs)
             = relPath ` {f \<in> set files. keptFile env own rep sid vl docsOnly (documents d) f}"
    using both by (rule conjunct2)
  have act: "\<And>r. r \<in> set (documents d1) \<Longrightarrow> source_id r = sid \<Longrightarrow> version_label r = vl
                \<Longrightarrow> path r \<in> set (keepPathsOf rs) \<Longrightarrow> active r = 1"
    and pres: "\<And>p. p \<in> set (keepPathsOf rs) \<Longrightarrow> (sid, p, vl) \<in> doc_key ` set (documents d1)"
    using inv by (auto simp: run_inv_def kept_active_def)
  let ?hit = "\<lambda>r. source_id r = sid \<and> version_label r = vl \<and> path r \<notin> set (keepPathsOf rs)"
  note docs = deactivate_rows [OF de]
  have kept_iff: "p \<in> set (keepPathsOf rs)
        \<longleftrightarrow> (\<exists>f \<in> set files. relPath f = p \<and> keptFile env own rep sid vl docsOnly (documents d) f)"
    for p
    unfolding ks by auto
  have one: "active row = (if \<exists>f \<in> set files. relPath f = path row
                                      \<and> keptFile env own rep sid vl docsOnly (documents d) f
                               then 1 else 0)"
    if row: "row \<in> set (documents d')" and k: "source_id row = sid" "version_label row = vl" for row
  proof -
    from row obtain r where r: "r \<in> set (documents d1)"
      "row = (if ?hit r then r\<lparr>active := 0\<rparr> else r)"
      unfolding docs by auto
    show ?thesis
    proof (cases "?hit r")
      case True
      with r have "active row = 0" "path row \<notin> set (keepPathsOf rs)" by simp_all
      then show ?thesis unfolding kept_iff by simp
    next
      case False
      with r have same: "row = r" by simp
      with False k have in_keep: "path r \<in> set (keepPathsOf rs)" by simp
      with act [OF r(1)] k same have "active row = 1" by simp
      with in_keep same show ?thesis unfolding kept_iff by simp
    qed
  qed
  have two: "\<exists>row \<in> set (documents d').
                    source_id row = sid \<and> path row = relPath f \<and> version_label row = vl"
    if f: "f \<in> set files" "keptFile env own rep sid vl docsOnly (documents d) f" for f
  proof -
    from f have "relPath f \<in> set (keepPathsOf rs)" unfolding kept_iff by blast
    from pres [OF this] obtain r where r: "r \<in> set (documents d1)" "doc_key r = (sid, relPath f, vl)"
      by auto
    let ?row = "if ?hit r then r\<lparr>active := 0\<rparr> else r"
    have "?row \<in> set (documents d')" unfolding docs using r(1) by force
    moreover have "source_id ?row = sid \<and> path ?row = relPath f \<and> version_label ?row = vl"
      using r(2) by (simp add: doc_key_def)
    ultimately show ?thesis by blast
  qed
  from one two show ?thesis by blast
qed

text \<open>
  Claim C1, amended. A loaded file is not always kept: a file that is passed over for
  lack of a code snippet is not upserted, and a file whose chunker gives no chunk is upserted
  and then left out of the kept paths. After the orchestrator has completed a successful
  sync of one \<open>(source_id, version_label)\<close> whose loaded files have distinct paths, on a
  database that satisfies the constraints of its schema, a document row of that
  \<open>(source_id, version_label)\<close> has \<open>active = 1\<close> if its path is the path of a loaded file
  that is kept (\<open>keptThisRun\<close>) and \<open>active = 0\<close> otherwise; and every kept file has its row.
\<close>

theorem ingest_active_iff_kept:
  assumes "documents_ok (documents d)"
    and "ingestGithubSource env w d source opts = Inr (d', s)"
    and "ingestSync env w source opts = Inr (SyncOk r)"
    and "distinct (map relPath (okFiles r))"
  shows "(\<forall>row \<in> set (documents d').
           source_id row = src_id source \<and> version_label row = ingestVersionLabel source opts
           \<longrightarrow> active row = (if \<exists>f \<in> set (okFiles r). relPath f = path row
                                      \<and> keptThisRun env source opts d f
                               then 1 else 0))
       \<and> (\<forall>f \<in> set (okFiles r). keptThisRun env source opts d f
             \<longrightarrow> (\<exists>row \<in> set (documents d').
                    source_id row = src_id source \<and> path row = relPath f
                    \<and> version_label row = ingestVersionLabel source opts))"
proof -
  let ?own = "the (src_owner source)" and ?rep = "the (src_repo source)"
  let ?vl = "ingestVersionLabel source opts"
  from assms(2,3) obtain rs where
    fi: "ingestFiles env ?own ?rep (src_id source) ?vl (ingestUseDocsOnly source) d (okFiles r)
           = Inr (d', rs)"
    by (auto simp: ingestGithubSource_def Let_def split: if_splits sum.splits)
  show ?thesis
    unfolding keptThisRun_def by (rule ingestFiles_active [OF assms(1) assms(4) fi])
qed

lemma ingest_example_ok: "documents_ok (documents db2)"
  unfolding db2_def db1_def doc1_def doc2_def documents_ok_def doc_key_def by simp

lemma ingest_example_snippets:
  "containsCodeSnippet ''```x```''" "\<not> containsCodeSnippet ''plain''"
  "isDocFile ''docs/b.md''" "isDocFile ''docs/c.md''"
  by (simp_all add: containsCodeSnippet_def is_line_terminator_def toLowerCase_def
      isDocFile_def DOC_EXTENSIONS_def lower_char_def code_def)

lemma ingest_example_sync: "ingestSync env0 world1 source0 options0 = Inr (SyncOk
   \<lparr>okCommitSha = ''0123abc'', okEtag = Some ''e1'', okLastModified = None, okTree = [],
    okFiles = files0, okSkipped = [], okProcessedFiles = 2\<rparr>)"
  by (simp add: ingestSync_def syncGithubRepo_def world1_def resolveCommitSha_def sha_example_dir
      dl0_def options0_def source0_def env0_def ingestForce_def orElse_def truthy_def files0_def)

lemmas ingest_example_defs = ingestFiles_def files0_def processFile_def ingest_example_snippets
  Let_def upsertDocument_def insertBlobOrIgnore_def db2_def db1_def doc1_def doc2_def env0_def
  next_id_def deleteChunksForDocument_def insertChunks_def keepPathsOf_def List.map_filter_simps
  truthy_def deactivateMissingDocuments_def fileTitle_def extractTitle_def source0_def
  options0_def ingestVersionLabel_def orElse_def ingestUseDocsOnly_def toLowerCase_def

lemma ingest_example_result:
  "\<not> isl (ingestGithubSource env0 world1 db2 source0 options0)"
  by (simp only: ingestGithubSource_def Let_def ingest_example_sync)
     (simp add: ingest_example_defs)

lemma ingest_example_rows:
  "map (\<lambda>r. (path r, active r))
     (documents (fst (projr (ingestGithubSource env0 world1 db2 source0 options0))))
   = [(''docs/a.md'', 0), (''docs/c.md'', 0), (''docs/b.md'', 1)]"
  by (simp only: ingestGithubSource_def Let_def ingest_example_sync)
     (simp add: ingest_example_defs)

lemma ingest_example_keys:
  "map (\<lambda>r. (source_id r, version_label r))
     (documents (fst (projr (ingestGithubSource env0 world1 db2 source0 options0))))
   = [(7, ''1.x''), (7, ''1.x''), (7, ''1.x'')]"
  by (simp only: ingestGithubSource_def Let_def ingest_example_sync)
     (simp add: ingest_example_defs)

lemma ingest_example_kept:
  "map (keptThisRun env0 source0 options0 db2) files0 = [True, False]"
  by (simp add: keptThisRun_def keptFile_def ingest_example_defs)

text \<open>The file \<open>docs/c.md\<close> is loaded in the run and has no code snippet: its document,
  active before the run, is not active after it.\<close>

theorem ingest_loaded_file_deactivated_counterexample:
  "map relPath files0 = [''docs/b.md'', ''docs/c.md'']
   \<and> map (\<lambda>r. (path r, active r)) (documents db2) = [(''docs/a.md'', 0), (''docs/c.md'', 1)]
   \<and> \<not> isl (ingestGithubSource env0 world1 db2 source0 options0)
   \<and> map (\<lambda>r. (path r, active r))
        (documents (fst (projr (ingestGithubSource env0 world1 db2 source0 options0))))
       = [(''docs/a.md'', 0), (''docs/c.md'', 0), (''docs/b.md'', 1)]"
proof -
  have "map relPath files0 = [''docs/b.md'', ''docs/c.md'']"
    by (simp add: files0_def)
  moreover have "map (\<lambda>r. (path r, active r)) (documents db2)
                   = [(''docs/a.md'', 0), (''docs/c.md'', 1)]"
    by (simp add: db2_def db1_def doc1_def doc2_def)
  ultimately show ?thesis
    using ingest_example_result ingest_example_rows by blast
qed

theorem ingest_active_iff_kept_witness:
  "documents_ok (documents db2)
   \<and> distinct (map relPath files0)
   \<and> map (keptThisRun env0 source0 options0 db2) files0 = [True, False]
   \<and> map (\<lambda>r. (path r, active r))
        (documents (fst (projr (ingestGithubSource env0 world1 db2 source0 options0))))
       = [(''docs/a.md'', 0), (''docs/c.md'', 0), (''docs/b.md'', 1)]
   \<and> list_all (\<lambda>row. active row = (if list_ex (\<lambda>f. relPath f = path row
                                      \<and> keptThisRun env0 source0 options0 db2 f) files0
                               then 1 else 0))
        (documents (fst (projr (ingestGithubSource env0 world1 db2 source0 options0))))"
proof -
  obtain d' s where res: "ingestGithubSource env0 world1 db2 source0 options0 = Inr (d', s)"
    using ingest_example_result
    by (cases "ingestGithubSource env0 world1 db2 source0 options0") auto
  have sv: "src_id source0 = 7" "ingestVersionLabel source0 options0 = ''1.x''"
    by (simp_all add: source0_def options0_def ingestVersionLabel_def orElse_def)
  have dist: "distinct (map relPath files0)"
    by (simp add: files0_def)
  have "map (\<lambda>r. (source_id r, version_label r)) (documents d')
          = [(7, ''1.x''), (7, ''1.x''), (7, ''1.x'')]"
    using ingest_example_keys by (simp add: res)
  then have "\<forall>p \<in> set (map (\<lambda>r. (source_id r, version_label r)) (documents d')). p = (7, ''1.x'')"
    by simp
  then have all7: "list_all (\<lambda>row. source_id row = 7 \<and> version_label row = ''1.x'') (documents d')"
    by (simp add: list_all_iff)
  from ingest_active_iff_kept [OF ingest_example_ok res ingest_example_sync]
  have "\<forall>row \<in> set (documents d').
           source_id row = 7 \<and> version_label row = ''1.x''
           \<longrightarrow> active row = (if \<exists>f \<in> set files0. relPath f = path row
                                      \<and> keptThisRun env0 source0 options0 db2 f
                               then 1 else 0)"
    unfolding sv using dist by simp
  with all7 have "list_all (\<lambda>row. active row = (if list_ex (\<lambda>f. relPath f = path row
                                      \<and> keptThisRun env0 source0 options0 db2 f) files0
                               then 1 else 0)) (documents d')"
    by (simp add: list_all_iff list_ex_iff)
  then show ?thesis
    using ingest_example_ok dist ingest_example_kept ingest_example_rows by (simp add: res)
qed

subsection \<open>Rank fusion\<close>

lemma fold_concat_lists: "fold f (concat xss) s = fold (fold f) xss s"
  by (induction xss arbitrary: s) simp_all

lemma fuseLists_events:
  "fuseLists weights hitLists sc = fold (\<lambda>(w, j, h). addHit w j h) (eventsOf weights hitLists) sc"
proof -
  have "fold (\<lambda>(w, j, h). addHit w j h) (map (\<lambda>(j, h). (w, j, h)) xs) = fold (\<lambda>(idx, hit). addHit w idx hit) xs"
    for w and xs :: "(nat \<times> SearchHit) list"
    by (simp add: fold_map comp_def case_prod_unfold)
  then show ?thesis
    unfolding fuseLists_def eventsOf_def fuseList_def
    by (simp add: fold_concat_lists fold_map comp_def case_prod_unfold)
qed

lemma fsum_snoc: "fsum (ts @ [c]) = (if ts = [] then c else fadd (fsum ts) c)"
  by (cases ts) (simp_all add: fsum_def)

lemma fsum_single [simp]: "fsum [x] = x"
  by (simp add: fsum_def)

lemma find_SomeD: "find P xs = Some x \<Longrightarrow> x \<in> set xs \<and> P x"
  by (induction xs) (auto split: if_splits)

lemma find_snoc:
  "find P (xs @ [x]) = (case find P xs of Some y \<Rightarrow> Some y | None \<Rightarrow> if P x then Some x else None)"
  by (induction xs) simp_all

lemma evTerms_append: "evTerms (es @ [(w, j, h)]) k
    = evTerms es k @ (if chunkId h = k then [fdiv w (Fin (of_nat (60 + (j + 1))))] else [])"
  by (simp add: evTerms_def)

lemma evRanks_append: "evRanks (es @ [(w, j, h)]) k
    = evRanks es k @ (if chunkId h = k then [j + 1] else [])"
  by (simp add: evRanks_def)

lemma evFirst_append: "evFirst (es @ [(w, j, h)]) k
    = (case evFirst es k of Some y \<Rightarrow> Some y | None \<Rightarrow> if chunkId h = k then Some h else None)"
  by (simp add: evFirst_def find_snoc)

lemma evTerms_absent: "(\<forall>(w, j, h) \<in> set es. chunkId h \<noteq> k) \<Longrightarrow> evTerms es k = []"
  by (induction es) (auto simp: evTerms_def)

lemma evRanks_absent: "(\<forall>(w, j, h) \<in> set es. chunkId h \<noteq> k) \<Longrightarrow> evRanks es k = []"
  by (induction es) (auto simp: evRanks_def)

lemma evFirst_absent: "(\<forall>(w, j, h) \<in> set es. chunkId h \<noteq> k) \<Longrightarrow> evFirst es k = None"
  by (induction es) (auto simp: evFirst_def)

lemma evTerms_Nil_iff: "evTerms es k = [] \<longleftrightarrow> evRanks es k = []"
  by (simp add: evTerms_def evRanks_def)

lemma evFirst_key: "evFirst es k = Some h \<Longrightarrow> chunkId h = k"
  unfolding evFirst_def by (auto dest: find_SomeD)

lemma fuseInv_entry:
  "fuseInv sc es \<Longrightarrow> (k, e) \<in> set sc \<Longrightarrow>
   e_score e = fsum (evTerms es k)
     \<and> evRanks es k \<noteq> [] \<and> e_bestRank e = Min (set (evRanks es k))
     \<and> evFirst es k = Some (e_hit e)"
  unfolding fuseInv_def by blast

lemma fuseInv_key:
  "fuseInv sc es \<Longrightarrow> (w, j, h) \<in> set es \<Longrightarrow> chunkId h \<in> fst ` set sc"
  unfolding fuseInv_def by blast

lemma fuseInv_distinct: "fuseInv sc es \<Longrightarrow> distinct (map fst sc)"
  unfolding fuseInv_def by blast

lemma fuseInvI:
  assumes "distinct (map fst sc)"
    and "\<And>w j h. (w, j, h) \<in> set es \<Longrightarrow> chunkId h \<in> fst ` set sc"
    and "\<And>k e. (k, e) \<in> set sc \<Longrightarrow> e_score e = fsum (evTerms es k)
            \<and> evRanks es k \<noteq> [] \<and> e_bestRank e = Min (set (evRanks es k))
            \<and> evFirst es k = Some (e_hit e)"
  shows "fuseInv sc es"
  unfolding fuseInv_def using assms by blast

lemma fuseInv_step:
  assumes "fuseInv sc es"
  shows "fuseInv (addHit w j h sc) (es @ [(w, j, h)])"
proof (cases "map_of sc (chunkId h)")
  case None
  then have nk: "chunkId h \<notin> fst ` set sc" by (simp add: map_of_eq_None_iff)
  have "chunkId h' \<noteq> chunkId h" if "(w', j', h') \<in> set es" for w' j' h'
    using fuseInv_key [OF assms that] nk by metis
  then have absent: "\<forall>(w, j, h') \<in> set es. chunkId h' \<noteq> chunkId h"
    by auto
  define n where "n = \<lparr>e_hit = h, e_score = fdiv w (Fin (of_nat (60 + (j + 1)))), e_bestRank = j + 1\<rparr>"
  have new: "addHit w j h sc = sc @ [(chunkId h, n)]"
    using None by (simp add: addHit_def Let_def n_def)
  show ?thesis
    unfolding new
  proof (rule fuseInvI)
    show "distinct (map fst (sc @ [(chunkId h, n)]))"
      using fuseInv_distinct [OF assms] nk by simp
  next
    fix w' j' h'
    assume "(w', j', h') \<in> set (es @ [(w, j, h)])"
    then have "(w', j', h') \<in> set es \<or> h' = h" by auto
    then show "chunkId h' \<in> fst ` set (sc @ [(chunkId h, n)])"
      using fuseInv_key [OF assms, of w' j' h'] by auto
  next
    fix k e
    assume m: "(k, e) \<in> set (sc @ [(chunkId h, n)])"
    show "e_score e = fsum (evTerms (es @ [(w, j, h)]) k)
            \<and> evRanks (es @ [(w, j, h)]) k \<noteq> [] \<and> e_bestRank e = Min (set (evRanks (es @ [(w, j, h)]) k))
            \<and> evFirst (es @ [(w, j, h)]) k = Some (e_hit e)"
    proof (cases "(k, e) \<in> set sc")
      case True
      then have "k \<noteq> chunkId h" using nk by force
      with fuseInv_entry [OF assms True] show ?thesis
        by (simp add: evTerms_append evRanks_append evFirst_append)
    next
      case False
      with m have "k = chunkId h" "e = n" by auto
      then show ?thesis
        by (simp add: n_def evTerms_append evRanks_append evFirst_append fsum_snoc
            evTerms_absent [OF absent] evRanks_absent [OF absent] evFirst_absent [OF absent])
    qed
  qed
next
  case (Some ex)
  define rrf where "rrf = fdiv w (Fin (of_nat (60 + (j + 1))))"
  define f :: "nat \<times> fuseEntry \<Rightarrow> nat \<times> fuseEntry" where "f = (\<lambda>(k, e). if k = chunkId h
                    then (k, e\<lparr>e_score := fadd (e_score e) rrf,
                               e_bestRank := (if j + 1 < e_bestRank e then j + 1 else e_bestRank e)\<rparr>)
                    else (k, e))"
  have upd: "addHit w j h sc = map f sc"
    unfolding addHit_def Let_def f_def rrf_def Some by (simp only: option.case)
  have fst_f: "fst (f p) = fst p" for p by (cases p) (simp add: f_def)
  have keys: "map fst (map f sc) = map fst sc"
    by (simp add: fst_f)
  have inkeys: "chunkId h \<in> fst ` set sc"
    using map_of_SomeD [OF Some] by force
  have keyset: "fst ` set (map f sc) = fst ` set sc"
    using keys by (metis set_map)
  show ?thesis
    unfolding upd
  proof (rule fuseInvI)
    show "distinct (map fst (map f sc))"
      using fuseInv_distinct [OF assms] by (simp only: keys)
  next
    fix w' j' h'
    assume "(w', j', h') \<in> set (es @ [(w, j, h)])"
    then have "(w', j', h') \<in> set es \<or> h' = h" by auto
    then show "chunkId h' \<in> fst ` set (map f sc)"
      unfolding keyset using fuseInv_key [OF assms, of w' j' h'] inkeys by auto
  next
    fix k e
    assume "(k, e) \<in> set (map f sc)"
    then obtain k0 e0 where m: "(k0, e0) \<in> set sc" "(k, e) = f (k0, e0)" by auto
    note i = fuseInv_entry [OF assms m(1)]
    show "e_score e = fsum (evTerms (es @ [(w, j, h)]) k)
            \<and> evRanks (es @ [(w, j, h)]) k \<noteq> [] \<and> e_bestRank e = Min (set (evRanks (es @ [(w, j, h)]) k))
            \<and> evFirst (es @ [(w, j, h)]) k = Some (e_hit e)"
    proof (cases "k0 = chunkId h")
      case True
      have ifmin: "(if a < b then a else b) = min a b" for a b :: nat
        by (simp add: min_def)
      have mn: "Min (set (evRanks es k0 @ [j + 1])) = min (j + 1) (Min (set (evRanks es k0)))"
        using i Min_insert [of "set (evRanks es k0)" "j + 1"] by simp
      from True m(2) have ke: "k = k0"
        "e = e0\<lparr>e_score := fadd (e_score e0) rrf,
               e_bestRank := (if j + 1 < e_bestRank e0 then j + 1 else e_bestRank e0)\<rparr>"
        by (simp_all add: f_def)
      have ne: "evTerms es k0 \<noteq> []"
        using i by (simp add: evTerms_Nil_iff)
      have a: "e_score e = fsum (evTerms (es @ [(w, j, h)]) k)"
        "evRanks (es @ [(w, j, h)]) k \<noteq> []"
        "evFirst (es @ [(w, j, h)]) k = Some (e_hit e)"
        unfolding ke using True i ne
        by (simp_all add: evTerms_append evRanks_append evFirst_append fsum_snoc rrf_def)
      have "e_bestRank e = min (j + 1) (Min (set (evRanks es k0)))"
        unfolding ke using i by (simp only: ifmin) simp
      also have "\<dots> = Min (set (evRanks (es @ [(w, j, h)]) k))"
        unfolding ke(1) evRanks_append using True mn by simp
      finally show ?thesis using a by blast
    next
      case False
      with m(2) have ke: "k = k0" "e = e0" by (simp_all add: f_def)
      show ?thesis
        unfolding ke using False i by (simp add: evTerms_append evRanks_append evFirst_append)
    qed
  qed
qed

lemma fuseInv_fold:
  "fuseInv sc es \<Longrightarrow> fuseInv (fold (\<lambda>(w, j, h). addHit w j h) evs sc) (es @ evs)"
proof (induction evs arbitrary: sc es)
  case Nil
  then show ?case by simp
next
  case (Cons ev evs)
  obtain w j h where ev: "ev = (w, j, h)" by (cases ev) auto
  from Cons.IH [OF fuseInv_step [OF Cons.prems, of w j h]]
  show ?case by (simp add: ev)
qed

lemma fuseInv_final: "fuseInv (fuseLists weights hitLists []) (eventsOf weights hitLists)"
  using fuseInv_fold [of "[]" "[]" "eventsOf weights hitLists"]
  by (simp add: fuseLists_events fuseInv_def)

lemma map_snd_fun_enumerate: "map (\<lambda>p. g (snd p)) (enumerate n xs) = map g xs"
  by (induction xs arbitrary: n) simp_all

lemma evTerms_eventsOf: "evTerms (eventsOf weights hitLists) c = termsOf hitLists weights c"
proof -
  let ?T = "\<lambda>(w, j, h). fdiv w (Fin (of_nat (60 + (j + 1))))"
  have inner: "map ?T (filter (\<lambda>(w, j, h). chunkId h = c) (map (\<lambda>(j, h). (w0, j, h)) ys))
        = map (\<lambda>(j, h). fdiv w0 (Fin (of_nat (60 + (j + 1))))) (filter (\<lambda>(j, h). chunkId h = c) ys)"
    for w0 and ys :: "(nat \<times> SearchHit) list"
    by (induction ys) auto
  have outer: "evTerms (concat (map (\<lambda>(i, hits). map (\<lambda>(j, h). (weightAt weights i, j, h))
                    (enumerate 0 hits)) xs)) c
        = concat (map (\<lambda>(i, hits).
                    map (\<lambda>(j, h). fdiv (weightAt weights i) (Fin (of_nat (60 + (j + 1)))))
                      (filter (\<lambda>(j, h). chunkId h = c) (enumerate 0 hits))) xs)"
    for xs :: "(nat \<times> SearchHit list) list"
  proof (induction xs)
    case Nil
    show ?case by (simp add: evTerms_def)
  next
    case (Cons x xs)
    obtain i hits where x: "x = (i, hits)" by (cases x) auto
    show ?case
      using Cons inner [of "weightAt weights i" "enumerate 0 hits"]
      by (simp add: x evTerms_def)
  qed
  show ?thesis
    unfolding eventsOf_def termsOf_def by (rule outer)
qed

lemma evRanks_eventsOf: "evRanks (eventsOf weights hitLists) c = ranksOf hitLists c"
proof -
  let ?R = "\<lambda>hits. map (\<lambda>(j, h). j + 1) (filter (\<lambda>(j, h). chunkId h = c) (enumerate 0 hits))"
  have inner: "map (\<lambda>(w, j, h). j + 1) (filter (\<lambda>(w, j, h). chunkId h = c)
                  (map (\<lambda>(j, h). (w0, j, h)) ys)) = map (\<lambda>(j, h). j + 1) (filter (\<lambda>(j, h). chunkId h = c) ys)"
    for w0 :: double and ys :: "(nat \<times> SearchHit) list"
    by (induction ys) auto
  have outer: "evRanks (concat (map (\<lambda>(i, hits). map (\<lambda>(j, h). (weightAt weights i, j, h))
                    (enumerate 0 hits)) xs)) c = concat (map (\<lambda>p. ?R (snd p)) xs)"
    for xs :: "(nat \<times> SearchHit list) list"
  proof (induction xs)
    case Nil
    show ?case by (simp add: evRanks_def)
  next
    case (Cons x xs)
    obtain i hits where x: "x = (i, hits)" by (cases x) auto
    show ?case
      using Cons inner [of "weightAt weights i" "enumerate 0 hits"]
      by (simp add: x evRanks_def)
  qed
  show ?thesis
    unfolding eventsOf_def ranksOf_def outer
    by (simp only: map_snd_fun_enumerate [of ?R 0 hitLists])
qed

lemma events_hits: "map (\<lambda>(w, j, h). h) (eventsOf weights hitLists) = concat hitLists"
proof -
  have inner: "map (\<lambda>(w, j, h). h) (map (\<lambda>(j, h). (w0, j, h)) ys) = map snd ys"
    for w0 :: double and ys :: "(nat \<times> SearchHit) list"
    by (induction ys) auto
  have outer: "map (\<lambda>(w, j, h). h) (concat (map (\<lambda>(i, hits). map (\<lambda>(j, h). (weightAt weights i, j, h))
                    (enumerate 0 hits)) xs)) = concat (map snd xs)"
    for xs :: "(nat \<times> SearchHit list) list"
  proof (induction xs)
    case Nil
    show ?case by simp
  next
    case (Cons x xs)
    obtain i hits where x: "x = (i, hits)" by (cases x) auto
    show ?case
      using Cons inner [of "weightAt weights i" "enumerate 0 hits"]
      by (simp add: x)
  qed
  show ?thesis
    unfolding eventsOf_def outer by simp
qed

lemma evFirst_eventsOf: "evFirst (eventsOf weights hitLists) c = firstHit hitLists c"
  by (simp add: evFirst_def firstHit_def events_hits)

lemma events_weights:
  assumes "list_all finite_double weights" and "(w, j, h) \<in> set (eventsOf weights hitLists)"
  shows "finite_double w"
proof -
  have fw: "finite_double (weightAt weights i)" for i
    using assms(1) by (simp add: weightAt_def list_all_length finite_double_def)
  from assms(2) obtain i where "w = weightAt weights i"
    unfolding eventsOf_def by auto
  with fw show ?thesis by simp
qed

text \<open>The sort.\<close>

lemma set_insert_by: "set (insert_by cmp x xs) = insert x (set xs)"
  by (induction xs) auto

lemma set_js_sort: "set (js_sort cmp xs) = set xs"
  by (induction xs) (simp_all add: js_sort_def set_insert_by)

lemma length_insert_by: "length (insert_by cmp x xs) = Suc (length xs)"
  by (induction xs) auto

lemma length_js_sort: "length (js_sort cmp xs) = length xs"
  by (induction xs) (simp_all add: js_sort_def length_insert_by)

lemma distinct_insert_by: "distinct (map f (insert_by cmp x xs)) = distinct (map f (x # xs))"
  by (induction xs) (auto simp: set_insert_by)

lemma distinct_js_sort: "distinct (map f (js_sort cmp xs)) = distinct (map f xs)"
proof (induction xs)
  case Nil
  show ?case by (simp add: js_sort_def)
next
  case (Cons x xs)
  have "js_sort cmp (x # xs) = insert_by cmp x (js_sort cmp xs)" by (simp add: js_sort_def)
  with Cons show ?case by (simp add: distinct_insert_by set_js_sort)
qed

lemma sorted_insert_by:
  fixes cmp :: "'a \<Rightarrow> 'a \<Rightarrow> int"
  assumes cmp: "\<And>a b. a \<in> S \<Longrightarrow> b \<in> S \<Longrightarrow> (cmp a b \<le> 0) = R a b"
    and total: "\<And>a b. a \<in> S \<Longrightarrow> b \<in> S \<Longrightarrow> R a b \<or> R b a"
    and trans: "\<And>a b c. R a b \<Longrightarrow> R b c \<Longrightarrow> R a c"
  shows "x \<in> S \<Longrightarrow> set xs \<subseteq> S \<Longrightarrow> sorted_wrt R xs \<Longrightarrow> sorted_wrt R (insert_by cmp x xs)"
proof (induction xs)
  case Nil
  show ?case by simp
next
  case (Cons y ys)
  from Cons.prems have y: "y \<in> S" and ys: "set ys \<subseteq> S" and sy: "\<forall>z \<in> set ys. R y z"
    and sys: "sorted_wrt R ys"
    by simp_all
  show ?case
  proof (cases "cmp x y \<le> 0")
    case True
    with cmp [OF Cons.prems(1) y] have xy: "R x y" by simp
    with sy trans have "\<forall>z \<in> set ys. R x z" by blast
    with True xy Cons.prems(3) show ?thesis by simp
  next
    case False
    with cmp [OF Cons.prems(1) y] total [OF Cons.prems(1) y] have yx: "R y x" by blast
    from Cons.IH [OF Cons.prems(1) ys sys] have "sorted_wrt R (insert_by cmp x ys)" .
    with False yx sy show ?thesis by (simp add: set_insert_by)
  qed
qed

lemma sorted_js_sort:
  fixes cmp :: "'a \<Rightarrow> 'a \<Rightarrow> int"
  assumes cmp: "\<And>a b. a \<in> S \<Longrightarrow> b \<in> S \<Longrightarrow> (cmp a b \<le> 0) = R a b"
    and total: "\<And>a b. a \<in> S \<Longrightarrow> b \<in> S \<Longrightarrow> R a b \<or> R b a"
    and trans: "\<And>a b c. R a b \<Longrightarrow> R b c \<Longrightarrow> R a c"
  shows "set xs \<subseteq> S \<Longrightarrow> sorted_wrt R (js_sort cmp xs)"
proof (induction xs)
  case Nil
  show ?case by (simp add: js_sort_def)
next
  case (Cons x xs)
  have eq: "js_sort cmp (x # xs) = insert_by cmp x (js_sort cmp xs)"
    by (simp add: js_sort_def)
  from Cons.prems have x: "x \<in> S" and xs: "set xs \<subseteq> S" by simp_all
  have "sorted_wrt R (insert_by cmp x (js_sort cmp xs))"
    by (rule sorted_insert_by [where S = S, OF cmp total trans x _ Cons.IH [OF xs]])
       (simp_all add: set_js_sort xs)
  then show ?case by (simp only: eq)
qed

text \<open>The scores that the sort compares.\<close>

lemma fsum_comparable:
  "ts \<noteq> [] \<Longrightarrow> (\<forall>t \<in> set ts. is_fin t \<and> gridd t) \<Longrightarrow> comparable (fsum ts)"
proof (induction ts rule: rev_induct)
  case Nil
  then show ?case by simp
next
  case (snoc x xs)
  from snoc.prems(2) have x: "is_fin x" "gridd x" by simp_all
  show ?case
  proof (cases "xs = []")
    case True
    with x show ?thesis
      by (cases x) (simp_all add: comparable_def is_fin_def)
  next
    case False
    with snoc have "comparable (fsum xs)" by simp
    then have "fsum xs \<noteq> NotANumber" by (simp add: comparable_def)
    from fadd_not_NaN [OF this x(1)] False show ?thesis
      by (simp add: fsum_snoc comparable_def gridd_fadd)
  qed
qed

lemma lit_is_fin: "\<bar>q\<bar> < 2 powi 1023 \<Longrightarrow> is_fin (lit q)"
  unfolding lit_def by (rule rnd_bound)

lemma addBonus_comparable: "comparable (e_score e) \<Longrightarrow> comparable (e_score (addBonus e))"
proof -
  assume c: "comparable (e_score e)"
  then have n: "e_score e \<noteq> NotANumber" by (simp add: comparable_def)
  have "is_fin (lit (5 / 100))" "is_fin (lit (2 / 100))"
    by (rule lit_is_fin, simp)+
  with fadd_not_NaN [OF n] have "fadd (e_score e) (lit (5 / 100)) \<noteq> NotANumber"
    "fadd (e_score e) (lit (2 / 100)) \<noteq> NotANumber"
    by blast+
  then have "comparable (fadd (e_score e) (lit (5 / 100)))"
    "comparable (fadd (e_score e) (lit (2 / 100)))"
    by (simp_all only: comparable_def gridd_fadd simp_thms)
  with c show ?thesis
    unfolding addBonus_def by (simp only: fuseEntry.simps split: if_splits) simp
qed

lemma addBonus_score:
  "e_score (addBonus e)
     = (if e_bestRank e = 1 then fadd (e_score e) (lit (5 / 100))
        else if e_bestRank e \<le> 3 then fadd (e_score e) (lit (2 / 100))
        else e_score e)"
  by (simp add: addBonus_def)

lemma addBonus_hit: "e_hit (addBonus e) = e_hit e"
  by (simp add: addBonus_def)

lemma compareScore_fle:
  "comparable (e_score a) \<Longrightarrow> comparable (e_score b) \<Longrightarrow>
   (compareScore a b \<le> 0) = fle (e_score b) (e_score a)"
  unfolding compareScore_def comparable_def by (simp add: fsub_sign)

text \<open>What the entries hold.\<close>

lemma fuseEntries_entry:
  assumes "e' \<in> set (fuseEntries hitLists weights)"
  shows "e_score e' = rrfScore hitLists weights (chunkId (e_hit e'))
         \<and> firstHit hitLists (chunkId (e_hit e')) = Some (e_hit e')
         \<and> (list_all finite_double weights \<longrightarrow> comparable (e_score e'))"
proof -
  from assms obtain k e where ke: "(k, e) \<in> set (fuseLists weights hitLists [])" "e' = addBonus e"
    unfolding fuseEntries_def by auto
  note i = fuseInv_entry [OF fuseInv_final ke(1)]
  from i have fh: "evFirst (eventsOf weights hitLists) k = Some (e_hit e)" by simp
  have key: "chunkId (e_hit e) = k" by (rule evFirst_key [OF fh])
  have sc: "e_score e = rrfSum hitLists weights k"
    using i by (simp add: rrfSum_def evTerms_eventsOf)
  have br: "e_bestRank e = bestRankOf hitLists k"
    using i by (simp add: bestRankOf_def evRanks_eventsOf)
  have a: "e_score e' = rrfScore hitLists weights (chunkId (e_hit e'))"
    unfolding ke(2) addBonus_score addBonus_hit key sc br rrfScore_def Let_def by (rule refl)
  have b: "firstHit hitLists (chunkId (e_hit e')) = Some (e_hit e')"
    unfolding ke(2) addBonus_hit key using fh by (simp add: evFirst_eventsOf)
  have c: "comparable (e_score e')" if fw: "list_all finite_double weights"
  proof -
    have ne: "evTerms (eventsOf weights hitLists) k \<noteq> []"
      using i by (simp add: evTerms_Nil_iff)
    have "is_fin t \<and> gridd t" if "t \<in> set (evTerms (eventsOf weights hitLists) k)" for t
    proof -
      from that obtain w j h where ev: "(w, j, h) \<in> set (eventsOf weights hitLists)"
        "t = fdiv w (Fin (of_nat (60 + (j + 1))))"
        unfolding evTerms_def by auto
      have "is_fin (fdiv w (Fin (of_nat (60 + (j + 1)))))"
        by (rule fdiv_finite [OF events_weights [OF fw ev(1)]]) simp
      then show ?thesis unfolding ev(2) by (simp add: gridd_fdiv)
    qed
    with ne have "comparable (fsum (evTerms (eventsOf weights hitLists) k))"
      by (intro fsum_comparable) blast+
    with i have "comparable (e_score e)" by simp
    then show ?thesis unfolding ke(2) by (rule addBonus_comparable)
  qed
  from a b c show ?thesis by blast
qed

lemma fuseEntries_keys:
  "map (\<lambda>e. chunkId (e_hit e)) (fuseEntries hitLists weights) = map fst (fuseLists weights hitLists [])"
proof -
  have "chunkId (e_hit (addBonus (snd p))) = fst p" if "p \<in> set (fuseLists weights hitLists [])" for p
  proof -
    from that have "(fst p, snd p) \<in> set (fuseLists weights hitLists [])" by simp
    from fuseInv_entry [OF fuseInv_final this]
    have "evFirst (eventsOf weights hitLists) (fst p) = Some (e_hit (snd p))" by simp
    from evFirst_key [OF this] show ?thesis by (simp add: addBonus_hit)
  qed
  then show ?thesis by (simp add: fuseEntries_def case_prod_unfold)
qed

lemma fuse_key_set:
  "fst ` set (fuseLists weights hitLists []) = chunkId ` set (concat hitLists)"
proof (intro set_eqI iffI)
  fix k
  assume "k \<in> fst ` set (fuseLists weights hitLists [])"
  then obtain e where "(k, e) \<in> set (fuseLists weights hitLists [])" by auto
  from fuseInv_entry [OF fuseInv_final this]
  have "firstHit hitLists k = Some (e_hit e)" by (simp add: evFirst_eventsOf)
  then have "e_hit e \<in> set (concat hitLists)" "chunkId (e_hit e) = k"
    unfolding firstHit_def by (auto dest: find_SomeD)
  then show "k \<in> chunkId ` set (concat hitLists)" by blast
next
  fix k
  assume "k \<in> chunkId ` set (concat hitLists)"
  then obtain h where "h \<in> set (concat hitLists)" "chunkId h = k" by auto
  then have "h \<in> set (map (\<lambda>(w, j, h). h) (eventsOf weights hitLists))"
    by (simp only: events_hits)
  then obtain w j where "(w, j, h) \<in> set (eventsOf weights hitLists)" by auto
  from fuseInv_key [OF fuseInv_final this] \<open>chunkId h = k\<close>
  show "k \<in> fst ` set (fuseLists weights hitLists [])" by simp
qed

text \<open>
  Claim C4, amended. For every call \<open>fuseRankedLists(lists, weights, limit)\<close> the output is
  the whole ranking cut by \<open>slice(0, limit)\<close>: its first \<open>limit\<close> entries for a \<open>limit\<close> that
  is not negative, and all but its last \<open>- limit\<close> entries for a negative one. The ranking
  holds every chunk of the lists once, with the first hit found for it. The score of a
  chunk is the sum, taken in the numbers of the platform from left to right over the lists,
  of one term \<open>weight / (60 + rank)\<close> for every place at which a list holds the chunk, ranks
  from 1; 0.05 is added if the best rank of the chunk is 1, else 0.02 if it is at most 3.
  With weights that are finite numbers the ranking is sorted by descending score.
\<close>

theorem fuseRankedLists_score_order_limit:
  "fuseRankedLists hitLists weights limit
     = map toHit
         (if 0 \<le> limit then take (nat limit) (fuseRanking hitLists weights)
          else take (length (fuseRanking hitLists weights) - nat (- limit))
                 (fuseRanking hitLists weights))
   \<and> distinct (map (\<lambda>e. chunkId (e_hit e)) (fuseRanking hitLists weights))
   \<and> set (map (\<lambda>e. chunkId (e_hit e)) (fuseRanking hitLists weights))
       = chunkId ` set (concat hitLists)
   \<and> (\<forall>e \<in> set (fuseRanking hitLists weights).
         e_score e = rrfScore hitLists weights (chunkId (e_hit e))
         \<and> firstHit hitLists (chunkId (e_hit e)) = Some (e_hit e))
   \<and> (list_all finite_double weights \<longrightarrow>
         sorted_wrt (\<lambda>a b. fle (e_score b) (e_score a)) (fuseRanking hitLists weights))"
proof -
  let ?entries = "fuseEntries hitLists weights"
  let ?ranking = "fuseRanking hitLists weights"
  have cut: "fuseRankedLists hitLists weights limit
     = map toHit
         (if 0 \<le> limit then take (nat limit) ?ranking
          else take (length ?ranking - nat (- limit)) ?ranking)"
  proof -
    have "nat (int (length ?ranking) + limit) = length ?ranking - nat (- limit)" if "limit < 0"
      using that by linarith
    then show ?thesis
      by (simp add: fuseRankedLists_def slice0_def)
  qed
  have keys: "map (\<lambda>e. chunkId (e_hit e)) ?entries = map fst (fuseLists weights hitLists [])"
    by (rule fuseEntries_keys)
  have dist: "distinct (map (\<lambda>e. chunkId (e_hit e)) ?ranking)"
    unfolding fuseRanking_def distinct_js_sort keys
    by (rule fuseInv_distinct [OF fuseInv_final])
  have "set (map (\<lambda>e. chunkId (e_hit e)) ?ranking) = set (map (\<lambda>e. chunkId (e_hit e)) ?entries)"
    unfolding fuseRanking_def by (simp only: set_map set_js_sort)
  also have "\<dots> = fst ` set (fuseLists weights hitLists [])"
    unfolding keys by simp
  finally have all: "set (map (\<lambda>e. chunkId (e_hit e)) ?ranking) = chunkId ` set (concat hitLists)"
    by (simp only: fuse_key_set)
  have entries: "e_score e = rrfScore hitLists weights (chunkId (e_hit e))
         \<and> firstHit hitLists (chunkId (e_hit e)) = Some (e_hit e)"
    if "e \<in> set ?ranking" for e
  proof -
    from that have "e \<in> set ?entries" by (simp add: fuseRanking_def set_js_sort)
    from fuseEntries_entry [OF this] show ?thesis by blast
  qed
  have sorted: "sorted_wrt (\<lambda>a b. fle (e_score b) (e_score a)) ?ranking"
    if fw: "list_all finite_double weights"
    unfolding fuseRanking_def
  proof (rule sorted_js_sort [where S = "set ?entries"])
    fix a b
    assume "a \<in> set ?entries" "b \<in> set ?entries"
    with fuseEntries_entry fw have c: "comparable (e_score a)" "comparable (e_score b)" by blast+
    show "(compareScore a b \<le> 0) = fle (e_score b) (e_score a)"
      by (rule compareScore_fle [OF c])
    from c show "fle (e_score b) (e_score a) \<or> fle (e_score a) (e_score b)"
      by (simp add: comparable_def fle_total)
  next
    fix a b c :: fuseEntry
    assume "fle (e_score b) (e_score a)" "fle (e_score c) (e_score b)"
    then show "fle (e_score c) (e_score a)" by (rule fle_trans [rotated])
  qed simp
  from cut dist all entries sorted show ?thesis by blast
qed

text \<open>The test of the repository: the lists A and B with the weights 2 and 1. Chunk 2
  comes first, with the sum of \<open>2 / 62\<close> and \<open>1 / 61\<close> and the bonus 0.05.\<close>

lemmas rnd_examples =
  rnd_pos_eval [where k = "- 4"] rnd_pos_eval [where k = "- 5"] rnd_pos_eval [where k = "- 6"]
  rnd_pos_eval [where k = "- 7"] rnd_pos_eval [where k = "- 56"]
  rnd_neg_eval [where k = "- 4"] rnd_neg_eval [where k = "- 5"] rnd_neg_eval [where k = "- 6"]
  rnd_neg_eval [where k = "- 7"] rnd_neg_eval [where k = "- 56"]

lemmas fuse_example_defs =
  fuseRanking_def fuseEntries_def fuseLists_def fuseList_def addHit_def weightAt_def
  addBonus_def js_sort_def compareScore_def listA_def listB_def baseHit_def enumerate_eq_zip
  fdiv_def fadd_def fsub_def fneg_def fsign_def is_inf_def is_zero_def is_neg_def fin_val_def
  lit_def rnd_examples round_even_def Let_def

lemma fuse_test_ranking:
  "map (\<lambda>e. (chunkId (e_hit e), e_score e, e_bestRank e)) (fuseRanking [listA, listB] [Fin 2, Fin 1])
     = [(2, Fin (3554295126328783 / 2 ^ 55), 1), (1, Fin (2982711884356853 / 2 ^ 55), 1),
        (3, Fin (40677674053669 / 2 ^ 50), 2)]"
  by (simp add: fuse_example_defs)

text \<open>Rounding decides an order: with the weights 1.5, 2 and 0.5, chunk 1 at the ranks 1,
  2, 1 and chunk 2 at the ranks 2, 1, 2 have the same exact sum, and chunk 1 is met first;
  the sums of the platform differ in the last place, and chunk 2 comes first.\<close>

lemma fuse_rounding_example:
  "map (\<lambda>e. (chunkId (e_hit e), e_score e))
     (fuseRanking [[baseHit 1, baseHit 2], [baseHit 2, baseHit 1], [baseHit 1, baseHit 2]]
        [Fin (3 / 2), Fin 2, Fin (1 / 2)])
     = [(2, Fin (8289862286066221 / 2 ^ 56)), (1, Fin (2072465571516555 / 2 ^ 54))]"
  by (simp add: fuse_example_defs)

lemma fuse_test_pairs:
  "map (\<lambda>e. (chunkId (e_hit e), e_score e)) (fuseRanking [listA, listB] [Fin 2, Fin 1])
     = [(2, Fin (3554295126328783 / 2 ^ 55)), (1, Fin (2982711884356853 / 2 ^ 55)),
        (3, Fin (40677674053669 / 2 ^ 50))]"
proof -
  have "map (\<lambda>e. (chunkId (e_hit e), e_score e)) (fuseRanking [listA, listB] [Fin 2, Fin 1])
        = map (\<lambda>(c, s, r). (c, s))
            (map (\<lambda>e. (chunkId (e_hit e), e_score e, e_bestRank e))
               (fuseRanking [listA, listB] [Fin 2, Fin 1]))"
    by simp
  then show ?thesis unfolding fuse_test_ranking by simp
qed

lemma toHit_pair: "(chunkId (toHit e), score (toHit e)) = (chunkId (e_hit e), e_score e)"
  by (simp add: toHit_def)

text \<open>With the limit \<open>- 1\<close> the call gives two hits: more than \<open>limit\<close> entries.\<close>

theorem fuseRankedLists_negative_limit_counterexample:
  "map chunkId (fuseRankedLists [listA, listB] [Fin 2, Fin 1] (- 1)) = [2, 1]
   \<and> \<not> int (length (fuseRankedLists [listA, listB] [Fin 2, Fin 1] (- 1))) \<le> - 1"
proof -
  let ?R = "fuseRanking [listA, listB] [Fin 2, Fin 1]"
  have ids: "map (\<lambda>e. chunkId (e_hit e)) ?R = [2, 1, 3]"
  proof -
    have "map (\<lambda>e. chunkId (e_hit e)) ?R = map fst (map (\<lambda>e. (chunkId (e_hit e), e_score e)) ?R)"
      by simp
    then show ?thesis unfolding fuse_test_pairs by simp
  qed
  then have len: "length ?R = 3"
    by (metis length_map length_Cons list.size(3) numeral_3_eq_3)
  have "map chunkId (fuseRankedLists [listA, listB] [Fin 2, Fin 1] (- 1))
          = take 2 (map (\<lambda>e. chunkId (e_hit e)) ?R)"
    by (simp add: fuseRankedLists_def slice0_def len take_map toHit_def comp_def)
  then have "map chunkId (fuseRankedLists [listA, listB] [Fin 2, Fin 1] (- 1)) = [2, 1]"
    unfolding ids by simp
  moreover from this have "length (fuseRankedLists [listA, listB] [Fin 2, Fin 1] (- 1)) = 2"
    by (metis length_map length_Cons list.size(3) numeral_2_eq_2)
  ultimately show ?thesis by simp
qed

theorem fuseRankedLists_score_order_limit_witness:
  "list_all finite_double [Fin 2, Fin 1]
   \<and> map (\<lambda>h. (chunkId h, score h)) (fuseRankedLists [listA, listB] [Fin 2, Fin 1] 2)
       = [(2, Fin (3554295126328783 / 2 ^ 55)), (1, Fin (2982711884356853 / 2 ^ 55))]
   \<and> sorted_wrt (\<lambda>a b. fle (e_score b) (e_score a)) (fuseRanking [listA, listB] [Fin 2, Fin 1])
   \<and> rrfScore [listA, listB] [Fin 2, Fin 1] 2 = Fin (3554295126328783 / 2 ^ 55)"
proof -
  let ?R = "fuseRanking [listA, listB] [Fin 2, Fin 1]"
  note t = fuseRankedLists_score_order_limit [of "[listA, listB]" "[Fin 2, Fin 1]" 2]
  have fw: "list_all finite_double [Fin 2, Fin 1]"
    by (simp add: finite_double_def)
  from t fw have sorted: "sorted_wrt (\<lambda>a b. fle (e_score b) (e_score a)) ?R" by blast
  from t have "fuseRankedLists [listA, listB] [Fin 2, Fin 1] 2 = map toHit (take 2 ?R)" by simp
  then have "map (\<lambda>h. (chunkId h, score h)) (fuseRankedLists [listA, listB] [Fin 2, Fin 1] 2)
               = take 2 (map (\<lambda>e. (chunkId (e_hit e), e_score e)) ?R)"
    by (simp add: take_map comp_def toHit_pair)
  then have out: "map (\<lambda>h. (chunkId h, score h)) (fuseRankedLists [listA, listB] [Fin 2, Fin 1] 2)
       = [(2, Fin (3554295126328783 / 2 ^ 55)), (1, Fin (2982711884356853 / 2 ^ 55))]"
    unfolding fuse_test_pairs by simp
  obtain e es where r: "?R = e # es"
    using fuse_test_pairs by (cases ?R) auto
  with fuse_test_pairs have e: "chunkId (e_hit e) = 2" "e_score e = Fin (3554295126328783 / 2 ^ 55)"
    by auto
  from t r have "e_score e = rrfScore [listA, listB] [Fin 2, Fin 1] (chunkId (e_hit e))" by simp
  with e have "rrfScore [listA, listB] [Fin 2, Fin 1] 2 = Fin (3554295126328783 / 2 ^ 55)" by simp
  with fw out sorted show ?thesis by blast
qed

subsection \<open>Full-text search with a fallback query\<close>

lemma set_trim_subset: "set (trim s) \<subseteq> set s"
proof -
  have a: "set (trimStart s) \<subseteq> set s" for s
    unfolding trimStart_def by (auto dest: set_dropWhileD)
  have b: "set (trimEnd s) \<subseteq> set s" for s
    unfolding trimEnd_def by (auto dest: set_dropWhileD)
  show ?thesis unfolding trim_def using a b by blast
qed

lemma replace_runs_set:
  "set (replace_runs P s) \<subseteq> {c \<in> set s. \<not> P c} \<union> {CHR '' ''}"
proof (induction P s rule: replace_runs.induct)
  case (1 P)
  show ?case by simp
next
  case (2 P c cs)
  show ?case
  proof (cases "P c")
    case True
    with 2 have "set (replace_runs P (dropWhile P cs)) \<subseteq> {c \<in> set (dropWhile P cs). \<not> P c} \<union> {CHR '' ''}"
      by simp
    moreover have "set (dropWhile P cs) \<subseteq> set cs" by (auto dest: set_dropWhileD)
    ultimately show ?thesis using True by auto
  next
    case False
    with 2 show ?thesis by auto
  qed
qed

lemma cleanFtsQuery_alphabet: "list_all (\<lambda>c. is_word c \<or> c = CHR '' '') (cleanFtsQuery t)"
proof -
  let ?s1 = "replace_runs is_quote t"
  let ?s2 = "replace_runs (\<lambda>c. \<not> is_word c) ?s1"
  let ?s3 = "replace_runs is_space ?s2"
  have "set ?s2 \<subseteq> {c. is_word c} \<union> {CHR '' ''}"
    using replace_runs_set [of "\<lambda>c. \<not> is_word c" ?s1] by auto
  moreover have "set ?s3 \<subseteq> set ?s2 \<union> {CHR '' ''}"
    using replace_runs_set [of is_space ?s2] by auto
  moreover have "set (cleanFtsQuery t) \<subseteq> set ?s3"
    unfolding cleanFtsQuery_def by (rule set_trim_subset)
  ultimately show ?thesis
    by (auto simp: list_all_iff)
qed

lemma rescore_range: "0 < f_score (rescore r) \<and> f_score (rescore r) \<le> 1
    \<and> f_score (rescore r) = 1 / (1 + \<bar>f_score r\<bar>)"
  by (simp add: rescore_def)

lemma engine0_star:
  "engine0 '' *'' None 5 = Inl (ErrorObject ''fts5: syntax error near ...'')"
  "engine0 ''*'' None 5 = Inr [row0]"
  by (simp_all add: engine0_def)

lemma syntax_error_example: "isFtsSyntaxError (ErrorObject ''fts5: syntax error near ...'')"
  by code_simp

lemma normalize_star: "normalizeFtsQuery '' *'' = ''*''"
  by code_simp

text \<open>
  Claim C5, as stated, fails: the form the query is retried with is not always made of
  letters, digits and underscore only. For the query of a blank and a star the engine
  raises a syntax error, the normalized form is the star alone, and the retry runs with it.
\<close>

theorem searchFTS_retry_not_normalized_counterexample:
  "engine0 '' *'' None 5 = Inl (ErrorObject ''fts5: syntax error near ...'')
   \<and> isFtsSyntaxError (ErrorObject ''fts5: syntax error near ...'')
   \<and> normalizeFtsQuery '' *'' = ''*''
   \<and> \<not> list_all (\<lambda>c. is_word c \<or> is_space c) (normalizeFtsQuery '' *'')
   \<and> searchFTS engine0 '' *'' 5 None = Inr (map rescore [row0])"
proof -
  have "\<not> list_all (\<lambda>c. is_word c \<or> is_space c) ''*''"
    by code_simp
  then show ?thesis
    using engine0_star syntax_error_example normalize_star
    by (simp add: searchFTS_def truthy_def)
qed

text \<open>
  Claim C5, amended. \<open>searchFTS\<close> first runs the verbatim query. When the engine throws
  and the error is not a syntax error, the error is rethrown. When it is a syntax error, the
  fallback \<open>normalizeFtsQuery(query)\<close> is computed: the trimmed query with every run of
  characters other than letters, digits and underscore replaced by one space and trimmed
  again, or, when nothing is left of it, the trimmed query itself; if the fallback is empty
  or identical to the query the original error is rethrown, else the query is retried once
  with the fallback. Every row returned carries \<open>1 / (1 + |bm25|)\<close>, a value in (0, 1].
\<close>

theorem searchFTS_retry:
  "(\<forall>rows. engine query (if truthy versionLabel then versionLabel else None) limit = Inr rows
       \<longrightarrow> searchFTS engine query limit versionLabel = Inr (map rescore rows))
   \<and> (\<forall>err. engine query (if truthy versionLabel then versionLabel else None) limit = Inl err
       \<longrightarrow> \<not> isFtsSyntaxError err
       \<longrightarrow> searchFTS engine query limit versionLabel = Inl err)
   \<and> (\<forall>err. engine query (if truthy versionLabel then versionLabel else None) limit = Inl err
       \<longrightarrow> isFtsSyntaxError err
       \<longrightarrow> normalizeFtsQuery query = [] \<or> normalizeFtsQuery query = query
       \<longrightarrow> searchFTS engine query limit versionLabel = Inl err)
   \<and> (\<forall>err. engine query (if truthy versionLabel then versionLabel else None) limit = Inl err
       \<longrightarrow> isFtsSyntaxError err
       \<longrightarrow> normalizeFtsQuery query \<noteq> [] \<longrightarrow> normalizeFtsQuery query \<noteq> query
       \<longrightarrow> searchFTS engine query limit versionLabel
           = map_sum (\<lambda>e. e) (map rescore)
               (engine (normalizeFtsQuery query) (if truthy versionLabel then versionLabel else None) limit))
   \<and> normalizeFtsQuery query
       = (if cleanFtsQuery (trim query) \<noteq> [] then cleanFtsQuery (trim query) else trim query)
   \<and> list_all (\<lambda>c. is_word c \<or> c = CHR '' '') (cleanFtsQuery (trim query))
   \<and> (\<forall>rows. searchFTS engine query limit versionLabel = Inr rows
       \<longrightarrow> (\<forall>r \<in> set rows. 0 < f_score r \<and> f_score r \<le> 1
             \<and> (\<exists>raw. r = rescore raw \<and> f_score r = 1 / (1 + \<bar>f_score raw\<bar>))))"
proof -
  let ?v = "if truthy versionLabel then versionLabel else None"
  have a: "searchFTS engine query limit versionLabel = Inr (map rescore rows)"
    if "engine query ?v limit = Inr rows" for rows
    using that by (simp add: searchFTS_def)
  have b: "searchFTS engine query limit versionLabel = Inl err"
    if "engine query ?v limit = Inl err" "\<not> isFtsSyntaxError err" for err
    using that by (simp add: searchFTS_def)
  have c: "searchFTS engine query limit versionLabel = Inl err"
    if "engine query ?v limit = Inl err" "isFtsSyntaxError err"
      "normalizeFtsQuery query = [] \<or> normalizeFtsQuery query = query" for err
    using that by (auto simp: searchFTS_def Let_def)
  have d: "searchFTS engine query limit versionLabel
           = map_sum (\<lambda>e. e) (map rescore) (engine (normalizeFtsQuery query) ?v limit)"
    if "engine query ?v limit = Inl err" "isFtsSyntaxError err"
      "normalizeFtsQuery query \<noteq> []" "normalizeFtsQuery query \<noteq> query" for err
    using that by (cases "engine (normalizeFtsQuery query) ?v limit") (simp_all add: searchFTS_def Let_def)
  have e: "normalizeFtsQuery query
       = (if cleanFtsQuery (trim query) \<noteq> [] then cleanFtsQuery (trim query) else trim query)"
    by (simp add: normalizeFtsQuery_def Let_def)
  have f: "\<forall>r \<in> set rows. 0 < f_score r \<and> f_score r \<le> 1
             \<and> (\<exists>raw. r = rescore raw \<and> f_score r = 1 / (1 + \<bar>f_score raw\<bar>))"
    if "searchFTS engine query limit versionLabel = Inr rows" for rows
  proof -
    from that obtain raws where "rows = map rescore raws"
      by (auto simp: searchFTS_def Let_def split: sum.splits if_splits)
    then show ?thesis using rescore_range by auto
  qed
  from a b c d e f cleanFtsQuery_alphabet [of "trim query"] show ?thesis
    by blast
qed

lemma engine0_next:
  "engine0 ''next.js'' None 5 = Inl (ErrorObject ''fts5: syntax error near ...'')"
  "engine0 ''next js'' None 5 = Inr [row0]"
  by (simp_all add: engine0_def)

lemma normalize_next: "normalizeFtsQuery ''next.js'' = ''next js''"
  by code_simp

theorem searchFTS_retry_witness:
  "engine0 ''next.js'' None 5 = Inl (ErrorObject ''fts5: syntax error near ...'')
   \<and> isFtsSyntaxError (ErrorObject ''fts5: syntax error near ...'')
   \<and> normalizeFtsQuery ''next.js'' = ''next js''
   \<and> searchFTS engine0 ''next.js'' 5 None = Inr [rescore row0]
   \<and> f_score (rescore row0) = 1 / 4"
proof -
  from searchFTS_retry [of engine0 "''next.js''" None 5]
  have "searchFTS engine0 ''next.js'' 5 None
        = map_sum (\<lambda>e. e) (map rescore) (engine0 (normalizeFtsQuery ''next.js'') None 5)"
    using engine0_next(1) syntax_error_example normalize_next
    by (simp add: truthy_def)
  then show ?thesis
    using engine0_next syntax_error_example normalize_next
    by (simp add: rescore_def row0_def)
qed

subsection \<open>The token limiter of the Markdown chunker\<close>

lemma last_dropWhile: "dropWhile P xs \<noteq> [] \<Longrightarrow> last (dropWhile P xs) = last xs"
  by (induction xs) (auto split: if_splits)

lemma trim_is_trimmed: "trim s \<noteq> [] \<Longrightarrow> is_trimmed (trim s)"
proof -
  assume ne: "trim s \<noteq> []"
  let ?t = "dropWhile is_space s"
  let ?u = "dropWhile is_space (rev ?t)"
  have tr: "trim s = rev ?u" by (simp add: trim_def trimEnd_def trimStart_def)
  with ne have u: "?u \<noteq> []" by simp
  have t: "?t \<noteq> []"
  proof
    assume e: "?t = []"
    have "?u = []" unfolding e by simp
    with u show False by contradiction
  qed
  have "\<not> is_space (hd ?u)" using u by (rule hd_dropWhile)
  then have l: "\<not> is_space (last (rev ?u))" using u by (simp add: last_rev)
  have "last ?u = last (rev ?t)" using u by (rule last_dropWhile)
  then have "hd (rev ?u) = hd ?t" using u t by (simp add: hd_rev last_rev)
  moreover have "\<not> is_space (hd ?t)" using t by (rule hd_dropWhile)
  ultimately show ?thesis using l u by (simp add: is_trimmed_def tr)
qed

lemma trim_id: "is_trimmed s \<Longrightarrow> trim s = s"
proof -
  assume a: "is_trimmed s"
  then have "dropWhile is_space s = s"
    by (cases s) (auto simp: is_trimmed_def)
  moreover have "dropWhile is_space (rev s) = rev s"
    using a by (cases "rev s") (auto simp: is_trimmed_def last_rev [symmetric] hd_rev)
  ultimately show ?thesis by (simp add: trim_def trimEnd_def trimStart_def)
qed

lemma is_trimmed_append: "is_trimmed a \<Longrightarrow> is_trimmed b \<Longrightarrow> is_trimmed (a @ m @ b)"
  by (auto simp: is_trimmed_def)

lemma approxTokens_mono: "length a \<le> length b \<Longrightarrow> approxTokens a \<le> approxTokens b"
  by (auto simp: approxTokens_def intro: div_le_mono)

lemma approxTokens_Nil: "approxTokens [] = 1"
  by (simp add: approxTokens_def)

lemma makeChunk_fields [simp]:
  "content (makeChunk c b t s e ct) = c"
  "tokenCount (makeChunk c b t s e ct) = approxTokens c"
  "lineStart (makeChunk c b t s e ct) = Some s"
  "lineEnd (makeChunk c b t s e ct) = Some e"
  by (simp_all add: makeChunk_def)

lemma makeChunk_min_sized:
  "MIN_CHUNK_TOKENS \<le> approxTokens (trim x) \<Longrightarrow> min_sized (makeChunk (trim x) b t s e ct)"
proof -
  assume a: "MIN_CHUNK_TOKENS \<le> approxTokens (trim x)"
  then have "trim x \<noteq> []" by (auto simp: approxTokens_Nil MIN_CHUNK_TOKENS_def)
  then show ?thesis using a by (simp add: min_sized_def trim_is_trimmed)
qed

lemma splitLoop_min_sized:
  "\<forall>c \<in> set cs. min_sized c \<Longrightarrow>
   \<forall>c \<in> set (snd (splitLoop b t s ct ls cur current cs)). min_sized c"
proof (induction ls arbitrary: cur current cs)
  case Nil
  then show ?case by simp
next
  case (Cons line rest)
  let ?c1 = "current @ [line]"
  let ?txt = "trim (join [CHR 0x0A] ?c1)"
  show ?case
  proof (cases "approxTokens (join [CHR 0x0A] ?c1) \<ge> MAX_CHUNK_TOKENS")
    case False
    then show ?thesis using Cons.IH [OF Cons.prems] by (simp add: Let_def)
  next
    case True
    let ?cs1 = "if approxTokens ?txt \<ge> MIN_CHUNK_TOKENS
                then cs @ [makeChunk ?txt b t (s + int cur - int (length ?c1) + 1) (s + int cur) ct]
                else cs"
    have "\<forall>c \<in> set ?cs1. min_sized c"
      using Cons.prems makeChunk_min_sized by auto
    from Cons.IH [OF this] True show ?thesis by (simp add: Let_def)
  qed
qed

lemma merged_min_sized:
  assumes "min_sized b" "min_sized c"
  shows "min_sized (b\<lparr>content := trim (content b @ [CHR 0x0A, CHR 0x0A] @ content c),
                      tokenCount := approxTokens (trim (content b @ [CHR 0x0A, CHR 0x0A] @ content c)),
                      preview := p, lineEnd := e\<rparr>)"
proof -
  let ?x = "content b @ [CHR 0x0A, CHR 0x0A] @ content c"
  have t: "is_trimmed ?x"
    using assms by (intro is_trimmed_append) (auto simp: min_sized_def)
  then have id: "trim ?x = ?x" by (rule trim_id)
  have "approxTokens (content b) \<le> approxTokens ?x"
    by (rule approxTokens_mono) simp
  with assms(1) t id show ?thesis
    by (simp add: min_sized_def)
qed


lemma mergeSmallLoop_step:
  "mergeSmallLoop (Some b) (c # cs) merged =
     (if tokenCount b < PREFERRED_MIN_TOKENS
         \<and> approxTokens (trim (content b @ [CHR 0x0A, CHR 0x0A] @ content c)) \<le> MAX_CHUNK_TOKENS
      then mergeSmallLoop
             (Some (b\<lparr>content := trim (content b @ [CHR 0x0A, CHR 0x0A] @ content c),
                      tokenCount := approxTokens (trim (content b @ [CHR 0x0A, CHR 0x0A] @ content c)),
                      preview := Some (buildPreview (trim (content b @ [CHR 0x0A, CHR 0x0A] @ content c))
                                         PREVIEW_CHAR_LIMIT),
                      lineEnd := (case lineEnd c of None \<Rightarrow> lineEnd b | Some e \<Rightarrow> Some e)\<rparr>))
             cs merged
      else mergeSmallLoop (Some c) cs (merged @ [b]))"
  by (simp add: Let_def)

lemma mergeSmallLoop_min_sized:
  "(\<forall>b. buffer = Some b \<longrightarrow> min_sized b) \<Longrightarrow> \<forall>c \<in> set cs. min_sized c \<Longrightarrow>
   \<forall>c \<in> set merged. min_sized c \<Longrightarrow>
   \<forall>c \<in> set (mergeSmallLoop buffer cs merged). min_sized c"
proof (induction cs arbitrary: buffer merged)
  case Nil
  then show ?case by (auto split: option.splits)
next
  case (Cons c cs)
  have c: "min_sized c" and rest: "\<forall>c \<in> set cs. min_sized c"
    using Cons.prems(2) by auto
  show ?case
  proof (cases buffer)
    case None
    have "\<forall>x \<in> set (mergeSmallLoop (Some c) cs merged). min_sized x"
      by (rule Cons.IH) (use c rest Cons.prems(3) in auto)
    then show ?thesis by (simp add: None)
  next
    case (Some b)
    let ?comb = "trim (content b @ [CHR 0x0A, CHR 0x0A] @ content c)"
    let ?b' = "b\<lparr>content := ?comb, tokenCount := approxTokens ?comb,
                preview := Some (buildPreview ?comb PREVIEW_CHAR_LIMIT),
                lineEnd := (case lineEnd c of None \<Rightarrow> lineEnd b | Some e \<Rightarrow> Some e)\<rparr>"
    have b: "min_sized b" using Cons.prems(1) Some by simp
    have keep: "\<forall>x \<in> set (mergeSmallLoop (Some c) cs (merged @ [b])). min_sized x"
      by (rule Cons.IH) (use b c rest Cons.prems(3) in auto)
    have "min_sized ?b'" by (rule merged_min_sized [OF b c])
    then have join: "\<forall>x \<in> set (mergeSmallLoop (Some ?b') cs merged). min_sized x"
      by (intro Cons.IH) (use rest Cons.prems(3) in auto)
    show ?thesis
    proof (cases "tokenCount b < PREFERRED_MIN_TOKENS \<and> approxTokens ?comb \<le> MAX_CHUNK_TOKENS")
      case True
      then have "mergeSmallLoop buffer (c # cs) merged = mergeSmallLoop (Some ?b') cs merged"
        by (auto simp add: Some mergeSmallLoop_step simp del: mergeSmallLoop.simps)
      with join show ?thesis by (simp only:)
    next
      case False
      then have "mergeSmallLoop buffer (c # cs) merged = mergeSmallLoop (Some c) cs (merged @ [b])"
        by (auto simp add: Some mergeSmallLoop_step simp del: mergeSmallLoop.simps)
      with keep show ?thesis by (simp only:)
    qed
  qed
qed

lemma mergeSmallChunks_min_sized:
  "\<forall>c \<in> set cs. min_sized c \<Longrightarrow> \<forall>c \<in> set (mergeSmallChunks cs). min_sized c"
  using mergeSmallLoop_min_sized [of None cs "[]"] by (simp add: mergeSmallChunks_def)

lemma mergeSmallLoop_nonempty:
  "buffer \<noteq> None \<or> cs \<noteq> [] \<or> merged \<noteq> [] \<Longrightarrow> mergeSmallLoop buffer cs merged \<noteq> []"
proof (induction cs arbitrary: buffer merged)
  case Nil
  then show ?case by (auto split: option.splits)
next
  case (Cons c cs)
  show ?case
  proof (cases buffer)
    case None
    then show ?thesis using Cons.IH [of "Some c" merged] by simp
  next
    case (Some b)
    show ?thesis
      unfolding Some mergeSmallLoop_step
      using Cons.IH [of "Some c" "merged @ [b]"] Cons.IH [of "Some _" merged]
      by (simp del: mergeSmallLoop.simps)
  qed
qed

lemma mergeSmallChunks_nonempty: "cs \<noteq> [] \<Longrightarrow> mergeSmallChunks cs \<noteq> []"
  using mergeSmallLoop_nonempty [of None cs "[]"] by (simp add: mergeSmallChunks_def)

lemma length_trimEnd_le: "length (trimEnd s) \<le> length s"
  using length_dropWhile_le [of is_space "rev s"] by (simp add: trimEnd_def)

lemma clampToTokens_bound: "approxTokens (clampToTokens c MAX_CHUNK_TOKENS) \<le> MAX_CHUNK_TOKENS"
proof (cases "approxTokens c \<le> MAX_CHUNK_TOKENS")
  case True
  then show ?thesis by (simp add: clampToTokens_def)
next
  case False
  have "length (trimEnd (take 2400 c)) \<le> 2400"
    using length_trimEnd_le [of "take 2400 c"] by simp
  then have "approxTokens (trimEnd (take 2400 c)) \<le> 600"
    by (simp add: approxTokens_def)
  with False show ?thesis by (simp add: clampToTokens_def MAX_CHUNK_TOKENS_def)
qed

text \<open>
  Claim C3, amended. A content of at most 600 approximate tokens (so one of exactly 600) is
  returned unsplit as one chunk. For a content of more than 600 approximate tokens, either
  no group of lines reached 40 tokens and the result is the single chunk made of the first
  2400 characters of the content (at most 600 tokens, possibly fewer than 40), or the result
  is not empty and every chunk of it has at least 40 tokens. (An upper bound on the chunks
  of the line-by-line split is not part of the statement.)
\<close>

theorem enforceTokenLimit_bounds:
  "(approxTokens c \<le> 600 \<longrightarrow>
      enforceTokenLimit c bc pth s e ct
        = [makeChunk c bc (if pth = [] then ''Document'' else last pth) s e ct])
   \<and> (600 < approxTokens c \<longrightarrow>
        (enforceTokenLimit c bc pth s e ct
           = [makeChunk (clampToTokens c 600) bc (if pth = [] then ''Document'' else last pth) s e ct]
         \<and> approxTokens (clampToTokens c 600) \<le> 600)
        \<or> (enforceTokenLimit c bc pth s e ct \<noteq> []
           \<and> (\<forall>d \<in> set (enforceTokenLimit c bc pth s e ct).
                 40 \<le> tokenCount d \<and> tokenCount d = approxTokens (content d))))"
proof (intro conjI impI)
  assume "approxTokens c \<le> 600"
  then show "enforceTokenLimit c bc pth s e ct
        = [makeChunk c bc (if pth = [] then ''Document'' else last pth) s e ct]"
    by (simp add: enforceTokenLimit_def MAX_CHUNK_TOKENS_def Let_def)
next
  assume big: "600 < approxTokens c"
  let ?t = "if pth = [] then ''Document'' else last pth"
  obtain current cs where sl: "splitLoop bc ?t s ct (split_on CHR 0x0A c) 0 [] [] = (current, cs)"
    by (cases "splitLoop bc ?t s ct (split_on CHR 0x0A c) 0 [] []") auto
  define cs1 where "cs1 = (if length current > 0 then
                (if approxTokens (trim (join [CHR 0x0A] current)) \<ge> MIN_CHUNK_TOKENS
                 then cs @ [makeChunk (trim (join [CHR 0x0A] current)) bc ?t
                              (e - int (length current) + 1) e ct]
                 else cs)
              else cs)"
  define cs2 where "cs2 = (if length cs1 = 0 \<and> approxTokens c > 0
              then cs1 @ [makeChunk (clampToTokens c MAX_CHUNK_TOKENS) bc ?t s e ct]
              else cs1)"
  define out where "out = enforceTokenLimit c bc pth s e ct"
  have res: "out = mergeSmallChunks cs2"
    using big unfolding out_def enforceTokenLimit_def Let_def sl cs2_def cs1_def
    by (simp add: MAX_CHUNK_TOKENS_def)
  have "\<forall>d \<in> set (snd (splitLoop bc ?t s ct (split_on CHR 0x0A c) 0 [] [])). min_sized d"
    by (rule splitLoop_min_sized) simp
  then have cs: "\<forall>d \<in> set cs. min_sized d" by (simp add: sl)
  have cs1: "\<forall>d \<in> set cs1. min_sized d"
    unfolding cs1_def using cs makeChunk_min_sized by auto
  have pos: "approxTokens c > 0" using big by simp
  have "(out = [makeChunk (clampToTokens c 600) bc ?t s e ct]
         \<and> approxTokens (clampToTokens c 600) \<le> 600)
        \<or> (out \<noteq> [] \<and> (\<forall>d \<in> set out. 40 \<le> tokenCount d \<and> tokenCount d = approxTokens (content d)))"
  proof (cases "cs1 = []")
    case True
    then have "cs2 = [makeChunk (clampToTokens c MAX_CHUNK_TOKENS) bc ?t s e ct]"
      using pos by (simp add: cs2_def)
    then have "out = [makeChunk (clampToTokens c MAX_CHUNK_TOKENS) bc ?t s e ct]"
      using res by (simp add: mergeSmallChunks_def)
    then show ?thesis
      using clampToTokens_bound [of c] by (simp add: MAX_CHUNK_TOKENS_def)
  next
    case False
    then have eq: "cs2 = cs1" by (simp add: cs2_def)
    have "\<forall>d \<in> set out. min_sized d"
      unfolding res eq using cs1 by (rule mergeSmallChunks_min_sized)
    moreover have "out \<noteq> []"
      unfolding res eq using False by (rule mergeSmallChunks_nonempty)
    ultimately show ?thesis
      by (auto simp: min_sized_def MIN_CHUNK_TOKENS_def)
  qed
  then show "(enforceTokenLimit c bc pth s e ct = [makeChunk (clampToTokens c 600) bc ?t s e ct]
         \<and> approxTokens (clampToTokens c 600) \<le> 600)
        \<or> (enforceTokenLimit c bc pth s e ct \<noteq> []
           \<and> (\<forall>d \<in> set (enforceTokenLimit c bc pth s e ct).
                 40 \<le> tokenCount d \<and> tokenCount d = approxTokens (content d)))"
    unfolding out_def .
qed

lemma not_space_letters [simp]:
  "\<not> is_space CHR ''A''" "\<not> is_space CHR ''B''" "\<not> is_space CHR ''x''" "\<not> is_space CHR ''y''"
  "\<not> is_space CHR ''#''" "\<not> is_space (CHR 0x60)"
  "is_space (CHR 0x0A)" "is_space CHR '' ''"
  by (simp_all add: is_space_def code_def)

lemma split_on_replicate: "split_on c (replicate n c @ s) = replicate n [] @ split_on c s"
  by (induction n) simp_all

lemma splitLoop_append:
  "splitLoop b t s ct (ls1 @ ls2) cur current cs =
     (case splitLoop b t s ct ls1 cur current cs of
        (current', cs') \<Rightarrow> splitLoop b t s ct ls2 (cur + length ls1) current' cs')"
  by (induction ls1 arbitrary: cur current cs) (simp_all add: Let_def)

lemma length_join_snoc:
  "xs \<noteq> [] \<Longrightarrow> length (join sep (xs @ [x])) = length (join sep xs) + length sep + length x"
proof (induction xs)
  case Nil
  then show ?case by simp
next
  case (Cons a xs)
  then show ?case by (cases xs) simp_all
qed

lemma splitLoop_blank_run:
  "current \<noteq> [] \<Longrightarrow> length (join [CHR 0x0A] current) + n < 2397 \<Longrightarrow>
   splitLoop b t s ct (replicate n []) cur current cs = (current @ replicate n [], cs)"
proof (induction n arbitrary: cur current)
  case 0
  show ?case by simp
next
  case (Suc n)
  have len: "length (join [CHR 0x0A] (current @ [[]])) = length (join [CHR 0x0A] current) + 1"
    using Suc.prems(1) by (simp add: length_join_snoc)
  then have small: "\<not> approxTokens (join [CHR 0x0A] (current @ [[]])) \<ge> MAX_CHUNK_TOKENS"
    using Suc.prems(2) by (simp add: approxTokens_def MAX_CHUNK_TOKENS_def)
  have "splitLoop b t s ct (replicate n []) (cur + 1) (current @ [[]]) cs
        = ((current @ [[]]) @ replicate n [], cs)"
    by (rule Suc.IH) (use len Suc.prems(2) in simp_all)
  with small show ?case
    by (simp add: Let_def replicate_app_Cons_same)
qed

lemma join_blank_lines_snoc:
  "xs \<noteq> [] \<Longrightarrow> join [c] (xs @ [x]) = join [c] xs @ [c] @ x"
proof (induction xs)
  case Nil
  then show ?case by simp
next
  case (Cons a xs)
  then show ?case by (cases xs) simp_all
qed

lemma join_blank_lines: "xs \<noteq> [] \<Longrightarrow> join [c] (xs @ replicate n []) = join [c] xs @ replicate n c"
proof (induction n)
  case 0
  show ?case by simp
next
  case (Suc n)
  have "xs @ replicate (Suc n) [] = (xs @ replicate n []) @ [[]]"
    by (simp add: replicate_append_same)
  moreover have "join [c] ((xs @ replicate n []) @ [[]]) = join [c] (xs @ replicate n []) @ [c]"
    using Suc.prems join_blank_lines_snoc [of "xs @ replicate n []" c "[]"] by simp
  ultimately show ?case
    using Suc by (simp add: replicate_append_same)
qed

lemma trimEnd_spaces: "\<forall>c \<in> set ws. is_space c \<Longrightarrow> x \<noteq> [] \<Longrightarrow> \<not> is_space (last x)
    \<Longrightarrow> trimEnd (x @ ws) = x"
proof -
  assume a: "\<forall>c \<in> set ws. is_space c" "x \<noteq> []" "\<not> is_space (last x)"
  have "dropWhile is_space (rev ws @ rev x) = dropWhile is_space (rev x)"
    using a(1) by (simp add: dropWhile_append)
  also have "\<dots> = rev x" using a(2,3) by (cases "rev x") (auto simp: last_rev [symmetric] hd_rev)
  finally show ?thesis by (simp add: trimEnd_def)
qed

lemma trimStart_spaces: "\<forall>c \<in> set ws. is_space c \<Longrightarrow> x \<noteq> [] \<Longrightarrow> \<not> is_space (hd x)
    \<Longrightarrow> trimStart (ws @ x) = x"
  by (cases x) (auto simp: trimStart_def dropWhile_append)

lemma takeOverlapLoop_blank:
  "t + n \<ge> ov \<Longrightarrow> t < ov \<Longrightarrow>
   takeOverlapLoop (replicate n [] @ rest) t ov acc = replicate (ov - t) [] @ acc"
proof (induction n arbitrary: t acc)
  case 0
  then show ?case by simp
next
  case (Suc n)
  show ?case
  proof (cases "t + 1 \<ge> ov")
    case True
    with Suc.prems have "ov - t = 1" by simp
    with True show ?thesis by (simp add: approxTokens_def Let_def)
  next
    case False
    then have "takeOverlapLoop (replicate n [] @ rest) (t + 1) ov ([] # acc)
               = replicate (ov - (t + 1)) [] @ ([] # acc)"
      using Suc.prems by (intro Suc.IH) simp_all
    moreover have "ov - t = Suc (ov - (t + 1))" using False by simp
    then have "replicate (ov - (t + 1)) [] @ ([] # acc) = replicate (ov - t) [] @ acc"
      by (simp only: replicate_app_Cons_same replicate_Suc append_Cons)
    ultimately show ?thesis using False by (simp add: approxTokens_def Let_def)
  qed
qed

lemma join_blank_then_line: "join [c] (replicate (Suc n) [] @ [x]) = replicate (Suc n) c @ x"
proof (induction n)
  case 0
  show ?case by simp
next
  case (Suc n)
  have "join [c] (replicate (Suc (Suc n)) [] @ [x]) = [c] @ join [c] (replicate (Suc n) [] @ [x])"
    by simp
  then show ?case by (simp only: Suc.IH) simp
qed

lemma snoc_blank: "(x # replicate n []) @ [[]] = x # replicate (Suc n) []"
  by (simp add: replicate_append_same)

lemma trim_line_then_blanks: "is_trimmed x \<Longrightarrow> trim (x @ replicate n (CHR 0x0A)) = x"
proof -
  assume a: "is_trimmed x"
  then have "trimStart (x @ replicate n (CHR 0x0A)) = x @ replicate n (CHR 0x0A)"
    by (cases x) (auto simp: trimStart_def is_trimmed_def)
  moreover have "trimEnd (x @ replicate n (CHR 0x0A)) = x"
    using a by (intro trimEnd_spaces) (auto simp: is_trimmed_def)
  ultimately show ?thesis by (simp add: trim_def)
qed

lemma trim_blanks_then_line: "trim (replicate n (CHR 0x0A) @ ''B'') = ''B''"
proof -
  have "trimStart (replicate n (CHR 0x0A) @ ''B'') = ''B''"
    by (rule trimStart_spaces) simp_all
  then show ?thesis by (simp add: trim_def trimEnd_def)
qed

end
